theory Spec2Isabelle
  imports Main "HOL-Library.AList"
begin

section \<open>Python values used by the screenshot tools\<close>

text \<open>
  A Python \<open>str\<close> is modelled as a \<open>string\<close>: the HOL character with code \<open>n\<close> stands
  for the code point \<open>U+00nn\<close>, so the model covers the texts whose code points are below
  256. A \<open>Dict[str, str]\<close> is an association list in insertion order, as a Python
  dictionary iterates: \<open>k in d\<close> is \<open>py_in k d\<close>, \<open>d[k]\<close> is \<open>getitem d k\<close> and the
  assignment \<open>d[k] = v\<close> is \<open>AList.update k v d\<close>, which replaces the value of an old key in
  place and appends a new key at the end.
\<close>

type_synonym store = "(string \<times> string) list"

text \<open>A ranked result \<open>(filename, description, score)\<close>; Python integers are unbounded.\<close>

type_synonym ranked = "string \<times> string \<times> int"

datatype py_error = ValueError | IndexError | KeyError

definition py_in :: "string \<Rightarrow> store \<Rightarrow> bool" where
  "py_in k d = (map_of d k \<noteq> None)"

definition getitem :: "store \<Rightarrow> string \<Rightarrow> py_error + string" where
  "getitem d k = (case map_of d k of None \<Rightarrow> Inl KeyError | Some v \<Rightarrow> Inr v)"

text \<open>
  \<open>str.isdigit\<close> on the code points below 256: the ten ASCII digits and the superscripts
  two, three and one (\<open>U+00B2\<close>, \<open>U+00B3\<close>, \<open>U+00B9\<close>). Only the ASCII digits are decimal
  digits, the ones \<open>int\<close> accepts.
\<close>

definition isdecimal :: "char \<Rightarrow> bool" where
  "isdecimal c = (48 \<le> (of_char c :: nat) \<and> (of_char c :: nat) \<le> 57)"

definition isdigit :: "char \<Rightarrow> bool" where
  "isdigit c = (isdecimal c \<or> (of_char c :: nat) = 178 \<or> (of_char c :: nat) = 179
                \<or> (of_char c :: nat) = 185)"

text \<open>\<open>str.isspace\<close> on the code points below 256; \<open>str.strip()\<close> removes these at both ends.\<close>

definition isspace :: "char \<Rightarrow> bool" where
  "isspace c = ((of_char c :: nat) \<in> {9, 10, 11, 12, 13, 28, 29, 30, 31, 32, 133, 160})"

definition strip :: "string \<Rightarrow> string" where
  "strip s = rev (dropWhile isspace (rev (dropWhile isspace s)))"

text \<open>\<open>s.split(c)\<close> for a separator of one character: never empty, \<open>''.split(c) == ['']\<close>.\<close>

fun split_on :: "char \<Rightarrow> string \<Rightarrow> string list" where
  "split_on c [] = [[]]"
| "split_on c (x # xs) =
     (if x = c then [] # split_on c xs
      else (case split_on c xs of [] \<Rightarrow> [[x]] | p # ps \<Rightarrow> (x # p) # ps))"

text \<open>\<open>'. ' in s\<close> and \<open>s.split('. ', 1)\<close>: at most one split, at the first \<open>'. '\<close>.\<close>

fun dot_space_in :: "string \<Rightarrow> bool" where
  "dot_space_in (x # y # xs) = ((x = CHR ''.'' \<and> y = CHR '' '') \<or> dot_space_in (y # xs))"
| "dot_space_in xs = False"

fun split_dot_space_1 :: "string \<Rightarrow> string list" where
  "split_dot_space_1 (x # y # xs) =
     (if x = CHR ''.'' \<and> y = CHR '' '' then [[], xs]
      else (case split_dot_space_1 (y # xs) of [] \<Rightarrow> [[x]] | p # ps \<Rightarrow> (x # p) # ps))"
| "split_dot_space_1 xs = [xs]"

text \<open>\<open>xs[-1]\<close>\<close>

definition py_last :: "'a list \<Rightarrow> py_error + 'a" where
  "py_last xs = (if xs = [] then Inl IndexError else Inr (last xs))"

text \<open>
  \<open>int(s)\<close> for a string of \<open>str.isdigit\<close> characters: the empty string and a string with
  a digit that is not decimal raise \<open>ValueError\<close>. (An interpreter that limits the length
  of a decimal string, 4300 digits by default, raises \<open>ValueError\<close> beyond it; the model
  has no such limit.)
\<close>

definition digit_value :: "char \<Rightarrow> int" where
  "digit_value c = int (of_char c) - 48"

definition py_int :: "string \<Rightarrow> py_error + int" where
  "py_int s = (if s = [] \<or> \<not> list_all isdecimal s then Inl ValueError
               else Inr (foldl (\<lambda>acc c. 10 * acc + digit_value c) 0 s))"

text \<open>\<open>xs[:k]\<close>: a negative \<open>k\<close> counts from the end.\<close>

definition slice_upto :: "int \<Rightarrow> 'a list \<Rightarrow> 'a list" where
  "slice_upto k xs = (if 0 \<le> k then take (nat k) xs else take (nat (int (length xs) + k)) xs)"

text \<open>\<open>str(n)\<close> of an integer and \<open>sep.join(xs)\<close>.\<close>

function str_nat :: "nat \<Rightarrow> string" where
  "str_nat n = (if n < 10 then [char_of (48 + n)]
                else str_nat (n div 10) @ [char_of (48 + n mod 10)])"
  by pat_completeness auto
termination
  by (relation "measure id") auto

definition str_int :: "int \<Rightarrow> string" where
  "str_int i = (if i < 0 then CHR ''-'' # str_nat (nat (- i)) else str_nat (nat i))"

fun join :: "string \<Rightarrow> string list \<Rightarrow> string" where
  "join sep [] = []"
| "join sep [x] = x"
| "join sep (x # y # xs) = x @ sep @ join sep (y # xs)"

definition newline :: char where
  "newline = CHR 0x0A"

section \<open>search_screenshots.py\<close>

definition descriptions_text :: "store \<Rightarrow> string" where
  "descriptions_text descriptions =
     join [newline]
       (map (\<lambda>(i, (filename, desc)). str_nat (i + 1) @ ''. '' @ filename @ '': '' @ desc)
            (enumerate 0 descriptions))"

definition search_prompt :: "string \<Rightarrow> store \<Rightarrow> int \<Rightarrow> string" where
  "search_prompt query descriptions top_k =
     ''Given this search query: '' @ [CHR 0x27] @ query @ [CHR 0x27]
     @ '', rank these screenshot descriptions by relevance. Return the top ''
     @ str_int top_k @ '' matches with confidence scores (0-100).'' @ [newline, newline]
     @ ''Format your response as:'' @ [newline]
     @ ''1. filename: confidence_score'' @ [newline]
     @ ''2. filename: confidence_score'' @ [newline]
     @ ''...'' @ [newline, newline]
     @ ''Screenshot descriptions:'' @ [newline]
     @ descriptions_text descriptions @ [newline]"

text \<open>
  The body of the inner \<open>try\<close> for one candidate line (lines 76 to 88). \<open>Inl\<close> is the
  exception raised, \<open>Inr None\<close> a line that appends nothing, \<open>Inr (Some r)\<close> the triple
  appended to \<open>results\<close>. \<open>line.split(':')\<close> splits at every colon: \<open>parts[0]\<close> is the text
  before the first colon, \<open>parts[1]\<close> the text between the first colon and the second.
\<close>

definition extract_line :: "store \<Rightarrow> string \<Rightarrow> py_error + ranked option" where
  "extract_line descriptions line =
     (case split_on CHR '':'' line of
        p0 # p1 # _ \<Rightarrow>
          (let filename_part = strip p0;
               score_part = strip p1
           in case (if dot_space_in filename_part
                    then py_last (split_dot_space_1 filename_part)
                    else Inr filename_part) of
                Inl e \<Rightarrow> Inl e
              | Inr filename \<Rightarrow>
                  (case py_int (filter isdigit score_part) of
                     Inl e \<Rightarrow> Inl e
                   | Inr score \<Rightarrow>
                       if py_in filename descriptions
                       then (case getitem descriptions filename of
                               Inl e \<Rightarrow> Inl e
                             | Inr desc \<Rightarrow> Inr (Some (filename, desc, score)))
                       else Inr None))
      | _ \<Rightarrow> Inr None)"

text \<open>
  The \<open>for line in lines\<close> loop (lines 72 to 90): \<open>except (ValueError, IndexError): continue\<close>
  drops the line; any other exception leaves the loop.
\<close>

fun parse_lines :: "store \<Rightarrow> string list \<Rightarrow> ranked list \<Rightarrow> py_error + ranked list" where
  "parse_lines descriptions [] results = Inr results"
| "parse_lines descriptions (line # lines) results =
     (if CHR '':'' \<in> set line \<and> list_ex isdigit line then
        (case extract_line descriptions line of
           Inl e \<Rightarrow>
             (if e = ValueError \<or> e = IndexError
              then parse_lines descriptions lines results
              else Inl e)
         | Inr None \<Rightarrow> parse_lines descriptions lines results
         | Inr (Some r) \<Rightarrow> parse_lines descriptions lines (results @ [r]))
      else parse_lines descriptions lines results)"

text \<open>
  \<open>search_screenshots\<close> (lines 36 to 96). \<open>client\<close> is the chat model: the reply text to a
  prompt, or \<open>None\<close> when the call raises. The outer \<open>except Exception\<close> turns every
  exception into the empty list.
\<close>

definition search_screenshots ::
  "(string \<Rightarrow> string option) \<Rightarrow> string \<Rightarrow> store \<Rightarrow> int \<Rightarrow> ranked list" where
  "search_screenshots client query descriptions top_k =
     (if descriptions = [] then []
      else (case client (search_prompt query descriptions top_k) of
              None \<Rightarrow> []
            | Some response_text \<Rightarrow>
                (case parse_lines descriptions (split_on newline (strip response_text)) [] of
                   Inl e \<Rightarrow> []
                 | Inr results \<Rightarrow> slice_upto top_k results)))"

section \<open>index_screenshots.py\<close>

text \<open>
  What the tools reach outside themselves. \<open>folder_exists\<close> and \<open>glob\<close> read the image
  folder (\<open>glob folder pattern\<close> gives \<open>str(path)\<close> of every match); \<open>formats\<close> is
  \<open>SUPPORTED_FORMATS\<close> in the order the set iterates; \<open>vision n path\<close> is the reply of the
  vision model to the call number \<open>n\<close> on the image at \<open>path\<close>, or \<open>None\<close> when reading
  the image or the call raises, so the same image may be answered differently at
  different calls; \<open>json_dump\<close> is \<open>json.dump(_, f, indent=2)\<close> as the text written and
  \<open>json_load\<close> is \<open>json.load\<close>, \<open>None\<close> for \<open>JSONDecodeError\<close>; \<open>path_name\<close> is
  \<open>Path(_).name\<close>.
\<close>

record env =
  folder_exists :: "string \<Rightarrow> bool"
  glob :: "string \<Rightarrow> string \<Rightarrow> string list"
  formats :: "string list"
  vision :: "nat \<Rightarrow> string \<Rightarrow> string option"
  json_dump :: "store \<Rightarrow> string"
  json_load :: "string \<Rightarrow> store option"
  path_name :: "string \<Rightarrow> string"

text \<open>
  The state the tools change: the text files by path (a write to a path succeeds and
  replaces the file) and the log of the images \<open>get_image_description\<close> was called on.
\<close>

record world =
  files :: "string \<rightharpoonup> string"
  vision_calls :: "string list"

definition DESCRIPTIONS_FILE :: string where
  "DESCRIPTIONS_FILE = ''screenshot_descriptions.json''"

definition SUPPORTED_FORMATS :: "string list" where
  "SUPPORTED_FORMATS = [''.png'', ''.jpg'', ''.jpeg'', ''.gif'', ''.bmp'', ''.webp'']"

text \<open>\<open>str.upper\<close> on ASCII text, which the extensions are.\<close>

definition upper :: "string \<Rightarrow> string" where
  "upper s = map (\<lambda>c. if 97 \<le> (of_char c :: nat) \<and> (of_char c :: nat) \<le> 122
                      then char_of ((of_char c :: nat) - 32) else c) s"

text \<open>
  \<open>get_image_description\<close> (lines 29 to 59): the reply of the model, or the empty string
  when anything raises.
\<close>

definition get_image_description :: "env \<Rightarrow> string \<Rightarrow> world \<Rightarrow> string \<times> world" where
  "get_image_description e image_path w =
     (case vision e (length (vision_calls w)) image_path of
        None \<Rightarrow> ([], w\<lparr>vision_calls := vision_calls w @ [image_path]\<rparr>)
      | Some content \<Rightarrow> (content, w\<lparr>vision_calls := vision_calls w @ [image_path]\<rparr>))"

definition load_descriptions :: "env \<Rightarrow> string \<Rightarrow> world \<Rightarrow> store" where
  "load_descriptions e file_path w =
     (case files w file_path of
        None \<Rightarrow> []
      | Some text \<Rightarrow> (case json_load e text of None \<Rightarrow> [] | Some d \<Rightarrow> d))"

definition save_descriptions :: "env \<Rightarrow> store \<Rightarrow> string \<Rightarrow> world \<Rightarrow> world" where
  "save_descriptions e descriptions file_path w =
     w\<lparr>files := (files w)(file_path \<mapsto> json_dump e descriptions)\<rparr>"

definition find_image_files :: "env \<Rightarrow> string \<Rightarrow> string list" where
  "find_image_files e folder_path =
     concat (map (\<lambda>ext. glob e folder_path (''*'' @ ext) @ glob e folder_path (''*'' @ upper ext))
                 (formats e))"

text \<open>
  The \<open>for image_path in image_files\<close> loop of \<open>index_screenshots\<close> (lines 98 to 114) on
  \<open>(descriptions, processed, world)\<close>.
\<close>

fun index_loop :: "env \<Rightarrow> string list \<Rightarrow> store \<times> nat \<times> world \<Rightarrow> store \<times> nat \<times> world" where
  "index_loop e [] s = s"
| "index_loop e (filename # image_files) (descriptions, processed, w) =
     (if py_in filename descriptions
      then index_loop e image_files (descriptions, processed, w)
      else (case get_image_description e filename w of
              (description, w') \<Rightarrow>
                if description \<noteq> []
                then index_loop e image_files
                       (AList.update filename description descriptions, processed + 1, w')
                else index_loop e image_files (descriptions, processed, w')))"

definition index_screenshots :: "env \<Rightarrow> string \<Rightarrow> string \<Rightarrow> world \<Rightarrow> world" where
  "index_screenshots e folder_path output_file w =
     (if \<not> folder_exists e folder_path then w
      else (let descriptions = load_descriptions e output_file w;
                image_files = find_image_files e folder_path
            in if image_files = [] then w
               else (case index_loop e image_files (descriptions, 0, w) of
                       (descriptions', processed, w') \<Rightarrow>
                         save_descriptions e descriptions' output_file w')))"

definition process_single_image :: "env \<Rightarrow> string \<Rightarrow> string \<Rightarrow> world \<Rightarrow> bool \<times> world" where
  "process_single_image e image_path descriptions_file w =
     (let descriptions = load_descriptions e descriptions_file w
      in if py_in image_path descriptions then (True, w)
         else (case get_image_description e image_path w of
                 (description, w') \<Rightarrow>
                   if description \<noteq> []
                   then (True, save_descriptions e
                                 (AList.update image_path description descriptions)
                                 descriptions_file w')
                   else (False, w')))"

section \<open>app.py: the search route\<close>

record hit =
  hit_filename :: string
  hit_full_path :: string
  hit_description :: string
  hit_confidence :: int
  hit_image_url :: string

datatype search_response =
  ErrorResponse string nat
| SearchResults "hit list" string nat

text \<open>\<open>search\<close> (lines 102 to 133) on the \<open>query\<close> field of the request.\<close>

definition search :: "env \<Rightarrow> (string \<Rightarrow> string option) \<Rightarrow> string \<Rightarrow> world \<Rightarrow> search_response" where
  "search e client query w =
     (if query = [] then ErrorResponse ''No query provided'' 400
      else (let descriptions = load_descriptions e DESCRIPTIONS_FILE w
            in if descriptions = [] then ErrorResponse ''No screenshots indexed yet'' 400
               else (let results = search_screenshots client query descriptions 5;
                         formatted_results =
                           map (\<lambda>(filename, description, score).
                                  \<lparr>hit_filename = path_name e filename,
                                   hit_full_path = filename,
                                   hit_description = description,
                                   hit_confidence = score,
                                   hit_image_url = ''/screenshots/'' @ path_name e filename\<rparr>)
                               results
                     in SearchResults formatted_results query (length formatted_results))))"

section \<open>search_screenshots.py: the command line\<close>

text \<open>
  \<open>main\<close> of \<open>search_screenshots.py\<close> (lines 111 to 130) on the arguments \<open>--query\<close>,
  \<open>--input\<close> and \<open>--top\<close> (here \<open>top_k\<close>). The module has a \<open>load_descriptions\<close> of its own, which
  returns what the one above returns and prints an error when the file is missing or
  does not decode, and nothing when the file holds an empty store. What is printed is
  not modelled: the value is \<open>None\<close> when \<open>main\<close> returns before the ranker is called and
  nothing is displayed, and the results handed to \<open>display_results\<close> otherwise.
\<close>

definition search_main ::
  "env \<Rightarrow> (string \<Rightarrow> string option) \<Rightarrow> string \<Rightarrow> string \<Rightarrow> int \<Rightarrow> world \<Rightarrow> ranked list option" where
  "search_main e client query input top_k w =
     (let descriptions = load_descriptions e input w
      in if descriptions = [] then None
         else Some (search_screenshots client query descriptions top_k))"

section \<open>The json module on the store\<close>

text \<open>
  The \<open>json\<close> module on a \<open>Dict[str, str]\<close> with code points below 256, the values the
  store holds. \<open>json_dumps\<close> is the text \<open>json.dump(d, f, indent=2)\<close> writes (with the default
  \<open>ensure_ascii\<close>): one \<open>"key": "value"\<close> per line, indented by two spaces, every character
  outside the printable ASCII range escaped.
\<close>

definition quote :: char where "quote = CHR 0x22"
definition backslash :: char where "backslash = CHR 0x5C"

definition hex_digit :: "nat \<Rightarrow> char" where
  "hex_digit n = (if n < 10 then char_of (48 + n) else char_of (87 + n))"

definition json_escape :: "char \<Rightarrow> string" where
  "json_escape c =
     (if c = quote then [backslash, quote]
      else if c = backslash then [backslash, backslash]
      else if c = CHR 0x0A then [backslash, CHR ''n'']
      else if c = CHR 0x0D then [backslash, CHR ''r'']
      else if c = CHR 0x09 then [backslash, CHR ''t'']
      else if c = CHR 0x08 then [backslash, CHR ''b'']
      else if c = CHR 0x0C then [backslash, CHR ''f'']
      else if 32 \<le> (of_char c :: nat) \<and> (of_char c :: nat) \<le> 126 then [c]
      else [backslash, CHR ''u'', CHR ''0'', CHR ''0'',
            hex_digit ((of_char c :: nat) div 16), hex_digit ((of_char c :: nat) mod 16)])"

definition json_string :: "string \<Rightarrow> string" where
  "json_string s = [quote] @ concat (map json_escape s) @ [quote]"

definition json_item :: "string \<times> string \<Rightarrow> string" where
  "json_item = (\<lambda>(k, v). ''  '' @ json_string k @ '': '' @ json_string v)"

definition json_dumps :: "store \<Rightarrow> string" where
  "json_dumps d =
     (if d = [] then ''{}''
      else ''{'' @ [newline] @ join ('','' @ [newline]) (map json_item d) @ [newline] @ ''}'')"

text \<open>
  \<open>json_loads\<close> is \<open>json.load\<close> on the text of a file: \<open>None\<close> is \<open>JSONDecodeError\<close>. The
  decoder reads an object whose values are strings; as in Python a repeated key keeps its
  first position and its last value. A document of another shape, which is outside
  \<open>Dict[str, str]\<close>, and an escape of a code point above 255 are not in this model and
  give \<open>None\<close>.
\<close>

definition hex_value :: "char \<Rightarrow> nat option" where
  "hex_value c =
     (let n = (of_char c :: nat) in
      if 48 \<le> n \<and> n \<le> 57 then Some (n - 48)
      else if 97 \<le> n \<and> n \<le> 102 then Some (n - 87)
      else if 65 \<le> n \<and> n \<le> 70 then Some (n - 55)
      else None)"

definition unescape :: "char \<Rightarrow> char option" where
  "unescape c =
     (if c = quote then Some quote
      else if c = backslash then Some backslash
      else if c = CHR ''/'' then Some CHR ''/''
      else if c = CHR ''b'' then Some (CHR 0x08)
      else if c = CHR ''f'' then Some (CHR 0x0C)
      else if c = CHR ''n'' then Some (CHR 0x0A)
      else if c = CHR ''r'' then Some (CHR 0x0D)
      else if c = CHR ''t'' then Some (CHR 0x09)
      else None)"

definition hex4 :: "char \<Rightarrow> char \<Rightarrow> char \<Rightarrow> char \<Rightarrow> nat option" where
  "hex4 a b c d =
     (case (hex_value a, hex_value b, hex_value c, hex_value d) of
        (Some x, Some y, Some z, Some u) \<Rightarrow> Some (((x * 16 + y) * 16 + z) * 16 + u)
      | _ \<Rightarrow> None)"

fun scan_string :: "string \<Rightarrow> (string \<times> string) option" where
  "scan_string [] = None"
| "scan_string (c # cs) =
     (if c = quote then Some ([], cs)
      else if c = backslash then
        (case cs of
           [] \<Rightarrow> None
         | x # cs' \<Rightarrow>
             if x = CHR ''u'' then
               (case cs' of
                  h1 # h2 # h3 # h4 # cs'' \<Rightarrow>
                    (case hex4 h1 h2 h3 h4 of
                       None \<Rightarrow> None
                     | Some n \<Rightarrow>
                         if n < 256 then
                           (case scan_string cs'' of
                              None \<Rightarrow> None
                            | Some (s, r) \<Rightarrow> Some (char_of n # s, r))
                         else None)
                | _ \<Rightarrow> None)
             else
               (case unescape x of
                  None \<Rightarrow> None
                | Some ch \<Rightarrow>
                    (case scan_string cs' of
                       None \<Rightarrow> None
                     | Some (s, r) \<Rightarrow> Some (ch # s, r))))
      else if (of_char c :: nat) < 32 then None
      else (case scan_string cs of
              None \<Rightarrow> None
            | Some (s, r) \<Rightarrow> Some (c # s, r)))"

definition json_ws :: "char \<Rightarrow> bool" where
  "json_ws c = (c = CHR '' '' \<or> c = CHR 0x09 \<or> c = CHR 0x0A \<or> c = CHR 0x0D)"

definition skip_ws :: "string \<Rightarrow> string" where
  "skip_ws s = dropWhile json_ws s"

function parse_pairs :: "string \<Rightarrow> (store \<times> string) option" where
  "parse_pairs [] = None"
| "parse_pairs (c # s1) =
     (if c \<noteq> quote then None
      else (case scan_string s1 of
              None \<Rightarrow> None
            | Some (k, s2) \<Rightarrow>
                (case skip_ws s2 of
                   [] \<Rightarrow> None
                 | c2 # s3 \<Rightarrow>
                     if c2 \<noteq> CHR '':'' then None
                     else (case skip_ws s3 of
                             [] \<Rightarrow> None
                           | c3 # s4 \<Rightarrow>
                               if c3 \<noteq> quote then None
                               else (case scan_string s4 of
                                       None \<Rightarrow> None
                                     | Some (v, s5) \<Rightarrow>
                                         (case skip_ws s5 of
                                            [] \<Rightarrow> None
                                          | c5 # s6 \<Rightarrow>
                                              if c5 = CHR ''}'' then Some ([(k, v)], s6)
                                              else if c5 = CHR '','' then
                                                (case parse_pairs (skip_ws s6) of
                                                   None \<Rightarrow> None
                                                 | Some (ps, r) \<Rightarrow> Some ((k, v) # ps, r))
                                              else None))))))"
  by pat_completeness auto
termination
proof -
  have scan: "length r < length s" if "scan_string s = Some (x, r)" for s x r
    using that
  proof (induction s arbitrary: x r rule: scan_string.induct)
    case 1
    then show ?case by simp
  next
    case (2 c cs)
    show ?case
      using "2.prems" "2.IH"
      by (auto split: if_splits list.splits option.splits prod.splits simp: less_Suc_eq)
  qed
  have skip_le: "length (skip_ws s) \<le> length s" for s
    by (simp add: skip_ws_def length_dropWhile_le)
  have skip: "length r < length s" if "skip_ws s = c # r" for s c r
    using that skip_le [of s] by simp
  show ?thesis
  proof (relation "measure length", goal_cases)
    case 1
    show ?case by simp
  next
    case 2
    then show ?case
      by (clarsimp dest!: scan skip) (rule le_less_trans [OF skip_le], linarith)
  qed
qed

definition dict_of :: "(string \<times> string) list \<Rightarrow> store" where
  "dict_of ps = foldl (\<lambda>d (k, v). AList.update k v d) [] ps"

definition json_loads :: "string \<Rightarrow> store option" where
  "json_loads s =
     (case skip_ws s of
        [] \<Rightarrow> None
      | c # s1 \<Rightarrow>
          if c \<noteq> CHR ''{'' then None
          else (case skip_ws s1 of
                  [] \<Rightarrow> None
                | c1 # s2 \<Rightarrow>
                    if c1 = CHR ''}'' then (if skip_ws s2 = [] then Some [] else None)
                    else (case parse_pairs (skip_ws s1) of
                            None \<Rightarrow> None
                          | Some (ps, r) \<Rightarrow> if skip_ws r = [] then Some (dict_of ps) else None)))"

declare parse_pairs.simps [simp del]

section \<open>What the parser does with one line\<close>

text \<open>
  The values the loop of \<open>search_screenshots\<close> computes for a line, read off the code and
  proved equal to it below (\<open>extract_line_eq\<close>, \<open>parse_lines_eq\<close>): \<open>parts[0]\<close> is the text
  before the first colon, \<open>parts[1]\<close> the text between the first colon and the second (the
  end of the line when there is no second colon).
\<close>

definition name_part :: "string \<Rightarrow> string" where
  "name_part line = takeWhile (\<lambda>c. c \<noteq> CHR '':'') line"

definition after_colon :: "string \<Rightarrow> string" where
  "after_colon line = tl (dropWhile (\<lambda>c. c \<noteq> CHR '':'') line)"

definition score_part :: "string \<Rightarrow> string" where
  "score_part line = takeWhile (\<lambda>c. c \<noteq> CHR '':'') (after_colon line)"

text \<open>
  \<open>filename_part.split('. ', 1)[-1] if '. ' in filename_part else filename_part\<close>: the
  text after the first \<open>'. '\<close>, if there is one.
\<close>

fun after_dot_space :: "string \<Rightarrow> string option" where
  "after_dot_space (x # y # xs) =
     (if x = CHR ''.'' \<and> y = CHR '' '' then Some xs else after_dot_space (y # xs))"
| "after_dot_space xs = None"

definition strip_ordinal :: "string \<Rightarrow> string" where
  "strip_ordinal s = (case after_dot_space s of None \<Rightarrow> s | Some rest \<Rightarrow> rest)"

definition filename_of :: "string \<Rightarrow> string" where
  "filename_of line = strip_ordinal (strip (name_part line))"

text \<open>
  The triple the loop appends for a line, if it appends one, and the triples it collects
  from a reply.
\<close>

definition line_triple :: "store \<Rightarrow> string \<Rightarrow> ranked option" where
  "line_triple d line =
     (if CHR '':'' \<in> set line then
        (case py_int (filter isdigit (score_part line)) of
           Inl e \<Rightarrow> None
         | Inr score \<Rightarrow>
             (case map_of d (filename_of line) of
                None \<Rightarrow> None
              | Some desc \<Rightarrow> Some (filename_of line, desc, score)))
      else None)"

definition surviving :: "store \<Rightarrow> string \<Rightarrow> ranked list" where
  "surviving d response_text =
     List.map_filter (line_triple d) (split_on newline (strip response_text))"

section \<open>Notions of the specification\<close>






text \<open>The images the describer was called on between two states.\<close>

definition new_calls :: "world \<Rightarrow> world \<Rightarrow> string list" where
  "new_calls w w' = drop (length (vision_calls w)) (vision_calls w')"

text \<open>
  Every describe attempt between two states succeeded: the call number \<open>i\<close> on the image
  \<open>p\<close> was answered with a non-empty description.
\<close>

definition describes_succeeded :: "env \<Rightarrow> world \<Rightarrow> world \<Rightarrow> bool" where
  "describes_succeeded e w w' =
     list_all (\<lambda>(i, p). case vision e i p of None \<Rightarrow> False | Some s \<Rightarrow> s \<noteq> [])
       (enumerate (length (vision_calls w)) (new_calls w w'))"

text \<open>The invariant of the store: every key has a non-empty description.\<close>

definition store_inv :: "store \<Rightarrow> bool" where
  "store_inv d = list_all (\<lambda>(k, v). v \<noteq> []) d"

text \<open>A mapping is representable in the persisted format when decoding its document gives it back.\<close>

definition representable :: "env \<Rightarrow> store \<Rightarrow> bool" where
  "representable e m = (json_load e (json_dump e m) = Some m)"

section \<open>An example installation\<close>

text \<open>
  A folder with two screenshots; the vision model describes the first and fails on the
  second. The store is kept as JSON.
\<close>

definition example_env :: env where
  "example_env =
     \<lparr>folder_exists = (\<lambda>p. p = ''screenshots''),
      glob = (\<lambda>folder pattern.
                if folder = ''screenshots'' \<and> pattern = ''*.png''
                then [''screenshots/a.png'', ''screenshots/b.png''] else []),
      formats = SUPPORTED_FORMATS,
      vision = (\<lambda>n p. if p = ''screenshots/a.png'' then Some ''A login form'' else None),
      json_dump = json_dumps,
      json_load = json_loads,
      path_name = (\<lambda>p. last (split_on CHR ''/'' p))\<rparr>"

definition empty_world :: world where
  "empty_world = \<lparr>files = Map.empty, vision_calls = []\<rparr>"

text \<open>The same installation with a vision model that describes every image.\<close>

definition reliable_env :: env where
  "reliable_env = example_env\<lparr>vision := (\<lambda>n p. Some ''An image'')\<rparr>"

text \<open>The state after one run of \<open>index_screenshots\<close> on the folder, from nothing.\<close>

definition after_first_run :: "env \<Rightarrow> world" where
  "after_first_run e = index_screenshots e ''screenshots'' ''store.json'' empty_world"

section \<open>Properties\<close>

subsection \<open>Splitting and cleaning a line\<close>

lemma split_on_not_Nil: "split_on c xs \<noteq> []"
  by (induction xs) (auto split: list.splits)

lemma split_on_first:
  "split_on c xs =
     takeWhile (\<lambda>x. x \<noteq> c) xs
       # (if c \<in> set xs then split_on c (tl (dropWhile (\<lambda>x. x \<noteq> c) xs)) else [])"
proof (induction xs)
  case Nil
  show ?case by simp
next
  case (Cons x xs)
  show ?case
  proof (cases "x = c")
    case True
    then show ?thesis by simp
  next
    case False
    then show ?thesis
      using Cons.IH split_on_not_Nil [of c xs] by (auto split: list.splits)
  qed
qed

lemma split_on_parts:
  "CHR '':'' \<in> set line \<Longrightarrow>
     \<exists>rest. split_on CHR '':'' line = name_part line # score_part line # rest"
  unfolding name_part_def score_part_def after_colon_def
  by (subst split_on_first, simp, subst split_on_first, simp)

lemma split_on_no_sep: "c \<notin> set line \<Longrightarrow> split_on c line = [line]"
  by (subst split_on_first) auto

lemma dot_space_in_iff: "dot_space_in s \<longleftrightarrow> after_dot_space s \<noteq> None"
  by (induction s rule: after_dot_space.induct) auto

lemma split_dot_space_1_not_Nil: "split_dot_space_1 s \<noteq> []"
  by (induction s rule: split_dot_space_1.induct) (auto split: list.splits)

lemma split_dot_space_1_Some:
  "after_dot_space s = Some r \<Longrightarrow> \<exists>b. split_dot_space_1 s = [b, r]"
  by (induction s rule: after_dot_space.induct) (auto split: if_splits)

lemma split_dot_space_1_last:
  "after_dot_space s = Some r \<Longrightarrow> last (split_dot_space_1 s) = r"
  using split_dot_space_1_Some [of s r] by auto

lemma filename_choice:
  "(if dot_space_in s then py_last (split_dot_space_1 s) else Inr s) = Inr (strip_ordinal s)"
  by (auto simp: strip_ordinal_def dot_space_in_iff py_last_def split_dot_space_1_not_Nil
      split_dot_space_1_last split: option.splits)

lemma isdigit_not_isspace: "isdigit c \<Longrightarrow> \<not> isspace c"
  by (auto simp: isdigit_def isdecimal_def isspace_def)

lemma filter_dropWhile_disjoint:
  "(\<And>x. P x \<Longrightarrow> \<not> Q x) \<Longrightarrow> filter P (dropWhile Q xs) = filter P xs"
  by (induction xs) auto

lemma filter_isdigit_dropWhile: "filter isdigit (dropWhile isspace t) = filter isdigit t"
  by (rule filter_dropWhile_disjoint) (rule isdigit_not_isspace)

lemma filter_isdigit_strip: "filter isdigit (strip s) = filter isdigit s"
proof -
  have "filter isdigit (strip s) = rev (filter isdigit (dropWhile isspace (rev (dropWhile isspace s))))"
    unfolding strip_def by (simp only: rev_filter)
  also have "\<dots> = rev (filter isdigit (rev (dropWhile isspace s)))"
    by (simp only: filter_isdigit_dropWhile)
  also have "\<dots> = filter isdigit (dropWhile isspace s)"
    by (simp only: rev_filter [symmetric] rev_rev_ident)
  finally show ?thesis
    by (simp only: filter_isdigit_dropWhile)
qed

lemma py_int_error: "py_int s = Inl e \<Longrightarrow> e = ValueError"
  by (auto simp: py_int_def split: if_splits)

lemma py_int_nonneg: "py_int s = Inr n \<Longrightarrow> 0 \<le> n"
proof -
  have "list_all isdecimal s \<Longrightarrow> 0 \<le> a \<Longrightarrow> 0 \<le> foldl (\<lambda>acc c. 10 * acc + digit_value c) a s" for a
    by (induction s arbitrary: a) (auto simp: isdecimal_def digit_value_def)
  then show "py_int s = Inr n \<Longrightarrow> 0 \<le> n"
    by (auto simp: py_int_def split: if_splits)
qed


subsection \<open>One line, and the loop over the lines\<close>

lemma extract_line_eq:
  "extract_line d line =
     (if CHR '':'' \<in> set line then
        (case py_int (filter isdigit (score_part line)) of
           Inl e \<Rightarrow> Inl ValueError
         | Inr score \<Rightarrow> Inr (line_triple d line))
      else Inr None)"
proof (cases "CHR '':'' \<in> set line")
  case False
  then show ?thesis by (simp add: extract_line_def split_on_no_sep)
next
  case True
  then obtain rest where parts: "split_on CHR '':'' line = name_part line # score_part line # rest"
    using split_on_parts by blast
  show ?thesis
  proof (cases "py_int (filter isdigit (score_part line))")
    case (Inl e)
    then show ?thesis
      using True py_int_error [OF Inl]
      by (simp add: extract_line_def parts filename_choice filter_isdigit_strip)
  next
    case (Inr score)
    then show ?thesis
      using True
      by (cases "map_of d (filename_of line)")
        (simp_all add: extract_line_def parts filename_choice filter_isdigit_strip
          line_triple_def py_in_def getitem_def filename_of_def)
  qed
qed

lemma score_part_subset: "set (score_part line) \<subseteq> set line"
proof
  fix c assume "c \<in> set (score_part line)"
  then have "c \<in> set (after_colon line)"
    unfolding score_part_def by (rule set_takeWhileD [THEN conjunct1])
  then have "c \<in> set (dropWhile (\<lambda>c. c \<noteq> CHR '':'') line)"
    unfolding after_colon_def by (cases "dropWhile (\<lambda>c. c \<noteq> CHR '':'') line") auto
  then show "c \<in> set line" by (rule set_dropWhileD)
qed

lemma line_triple_no_digit: "\<not> list_ex isdigit line \<Longrightarrow> line_triple d line = None"
proof -
  assume "\<not> list_ex isdigit line"
  then have "\<forall>c\<in>set line. \<not> isdigit c"
    by (simp add: list_ex_iff)
  then have "filter isdigit (score_part line) = []"
    using score_part_subset [of line] by (auto simp: filter_empty_conv)
  then show ?thesis
    by (simp add: line_triple_def py_int_def)
qed

lemma line_triple_no_colon: "CHR '':'' \<notin> set line \<Longrightarrow> line_triple d line = None"
  by (simp add: line_triple_def)

lemma line_triple_Inl:
  "py_int (filter isdigit (score_part line)) = Inl e \<Longrightarrow> line_triple d line = None"
  by (simp add: line_triple_def)

lemma line_triple_Some:
  "line_triple d line = Some (f, desc, s) \<Longrightarrow>
     CHR '':'' \<in> set line \<and> f = filename_of line \<and> map_of d f = Some desc
     \<and> py_int (filter isdigit (score_part line)) = Inr s"
  by (auto simp: line_triple_def split: if_splits sum.splits option.splits)

lemma parse_lines_skip:
  "line_triple d line = None \<Longrightarrow> parse_lines d (line # lines) acc = parse_lines d lines acc"
proof (cases "CHR '':'' \<in> set line \<and> list_ex isdigit line")
  case False
  then show ?thesis by auto
next
  case True
  assume none: "line_triple d line = None"
  show ?thesis
  proof (cases "py_int (filter isdigit (score_part line))")
    case (Inl e)
    then show ?thesis
      using True by (simp add: extract_line_eq)
  next
    case (Inr score)
    then show ?thesis
      using True none by (simp add: extract_line_eq)
  qed
qed

lemma parse_lines_keep:
  "line_triple d line = Some r \<Longrightarrow>
     parse_lines d (line # lines) acc = parse_lines d lines (acc @ [r])"
proof -
  assume some: "line_triple d line = Some r"
  then have colon: "CHR '':'' \<in> set line"
    using line_triple_no_colon by fastforce
  have digit: "list_ex isdigit line"
    using some line_triple_no_digit by fastforce
  obtain score where "py_int (filter isdigit (score_part line)) = Inr score"
    using some line_triple_Inl by (cases "py_int (filter isdigit (score_part line))") fastforce+
  then show ?thesis
    using colon digit some by (simp add: extract_line_eq)
qed

lemma parse_lines_eq:
  "parse_lines d lines acc = Inr (acc @ List.map_filter (line_triple d) lines)"
proof (induction lines arbitrary: acc)
  case Nil
  show ?case by simp
next
  case (Cons line lines)
  show ?case
  proof (cases "line_triple d line")
    case None
    then show ?thesis
      using Cons.IH by (simp add: parse_lines_skip del: parse_lines.simps)
  next
    case (Some r)
    then show ?thesis
      using Cons.IH by (simp add: parse_lines_keep del: parse_lines.simps)
  qed
qed

lemma surviving_empty_store: "surviving [] response_text = []"
proof -
  have "List.map_filter (line_triple []) ls = []" for ls
    by (induction ls) (simp_all add: line_triple_def split: sum.splits)
  then show ?thesis by (simp add: surviving_def)
qed

lemma search_screenshots_eq:
  "search_screenshots client query d top_k =
     (case client (search_prompt query d top_k) of
        None \<Rightarrow> []
      | Some response_text \<Rightarrow> slice_upto top_k (surviving d response_text))"
proof (cases "d = []")
  case True
  then show ?thesis
    by (simp add: search_screenshots_def surviving_empty_store slice_upto_def split: option.splits)
next
  case False
  then show ?thesis
    by (simp add: search_screenshots_def surviving_def parse_lines_eq split: option.splits)
qed

lemma set_slice_upto: "set (slice_upto k xs) \<subseteq> set xs"
  by (auto simp: slice_upto_def dest: in_set_takeD)

lemma search_screenshots_member:
  assumes "r \<in> set (search_screenshots client query d top_k)"
  shows "\<exists>reply. client (search_prompt query d top_k) = Some reply \<and> r \<in> set (surviving d reply)"
proof (cases "client (search_prompt query d top_k)")
  case None
  have "search_screenshots client query d top_k = []"
    by (subst search_screenshots_eq) (simp only: None option.case)
  with assms show ?thesis by simp
next
  case (Some reply)
  have "search_screenshots client query d top_k = slice_upto top_k (surviving d reply)"
    by (subst search_screenshots_eq) (simp only: Some option.case)
  with assms have "r \<in> set (surviving d reply)"
    using set_slice_upto by fastforce
  with Some show ?thesis by blast
qed

lemma map_filter_member:
  "y \<in> set (List.map_filter f xs) \<Longrightarrow> \<exists>x \<in> set xs. f x = Some y"
  by (induction xs) (auto split: option.splits)

lemma surviving_member:
  "r \<in> set (surviving d reply) \<Longrightarrow>
     \<exists>line \<in> set (split_on newline (strip reply)). line_triple d line = Some r"
  unfolding surviving_def by (rule map_filter_member)




subsection \<open>The results of the ranker\<close>



text \<open>
  Claim C4, as amended. For every \<open>top_k\<close> that is not negative, \<open>search_screenshots\<close>
  returns at most \<open>top_k\<close> triples, and when the model replies they are the first \<open>top_k\<close>
  surviving triples in the order of their lines in the reply: nothing is sorted by
  confidence.
\<close>

theorem ranking_truncated_in_reply_order:
  assumes "0 \<le> top_k"
  shows "int (length (search_screenshots client query d top_k)) \<le> top_k
         \<and> (client (search_prompt query d top_k) = Some reply \<longrightarrow>
              search_screenshots client query d top_k = take (nat top_k) (surviving d reply))"
proof -
  have "search_screenshots client query d top_k = take (nat top_k) (surviving d reply)"
    if "client (search_prompt query d top_k) = Some reply"
    using that assms by (simp add: search_screenshots_eq slice_upto_def)
  moreover have "int (length (search_screenshots client query d top_k)) \<le> top_k"
  proof (cases "client (search_prompt query d top_k)")
    case None
    then show ?thesis using assms by (simp add: search_screenshots_eq)
  next
    case (Some r)
    then show ?thesis using assms by (simp add: search_screenshots_eq slice_upto_def)
  qed
  ultimately show ?thesis by blast
qed

theorem ranking_truncated_in_reply_order_witness:
  "(0::int) \<le> 2
   \<and> (\<lambda>prompt. Some (''a.png: 10'' @ [newline] @ ''b.png: 95'' @ [newline] @ ''a.png: 50''))
        (search_prompt ''login'' [(''a.png'', ''x''), (''b.png'', ''y'')] 2)
      = Some (''a.png: 10'' @ [newline] @ ''b.png: 95'' @ [newline] @ ''a.png: 50'')
   \<and> int (length (search_screenshots
         (\<lambda>prompt. Some (''a.png: 10'' @ [newline] @ ''b.png: 95'' @ [newline] @ ''a.png: 50''))
         ''login'' [(''a.png'', ''x''), (''b.png'', ''y'')] 2)) \<le> 2
   \<and> search_screenshots
         (\<lambda>prompt. Some (''a.png: 10'' @ [newline] @ ''b.png: 95'' @ [newline] @ ''a.png: 50''))
         ''login'' [(''a.png'', ''x''), (''b.png'', ''y'')] 2
      = take (nat 2) (surviving [(''a.png'', ''x''), (''b.png'', ''y'')]
                        (''a.png: 10'' @ [newline] @ ''b.png: 95'' @ [newline] @ ''a.png: 50''))
   \<and> take (nat 2) (surviving [(''a.png'', ''x''), (''b.png'', ''y'')]
                        (''a.png: 10'' @ [newline] @ ''b.png: 95'' @ [newline] @ ''a.png: 50''))
      = [(''a.png'', ''x'', 10), (''b.png'', ''y'', 95)]"
proof -
  have h: "(0::int) \<le> 2" by simp
  have e: "take (nat 2) (surviving [(''a.png'', ''x''), (''b.png'', ''y'')]
                        (''a.png: 10'' @ [newline] @ ''b.png: 95'' @ [newline] @ ''a.png: 50''))
      = [(''a.png'', ''x'', 10), (''b.png'', ''y'', 95)]"
    by code_simp
  show ?thesis
    using h e ranking_truncated_in_reply_order
      [OF h, where d = "[(''a.png'', ''x''), (''b.png'', ''y'')]" and query = "''login''"
         and client = "\<lambda>prompt. Some (''a.png: 10'' @ [newline] @ ''b.png: 95'' @ [newline] @ ''a.png: 50'')"
         and reply = "''a.png: 10'' @ [newline] @ ''b.png: 95'' @ [newline] @ ''a.png: 50''"]
    by simp
qed

text \<open>
  The claim as it was written fails for a negative \<open>top_k\<close>: \<open>results[:-1]\<close> drops the last
  triple and keeps the others, more than \<open>top_k\<close> of them.
\<close>

theorem ranking_negative_top_k_counterexample:
  "search_screenshots (\<lambda>prompt. Some (''a.png: 90'' @ [newline] @ ''b.png: 80''))
     ''login'' [(''a.png'', ''x''), (''b.png'', ''y'')] (- 1) = [(''a.png'', ''x'', 90)]
   \<and> \<not> int (length (search_screenshots
                        (\<lambda>prompt. Some (''a.png: 90'' @ [newline] @ ''b.png: 80''))
                        ''login'' [(''a.png'', ''x''), (''b.png'', ''y'')] (- 1))) \<le> - 1"
  by code_simp

text \<open>
  Claim C9. No confidence returned by \<open>search_screenshots\<close> is negative: the score is read
  from the digits of the score part alone, so the sign of \<open>-5\<close> is lost and the line gives
  5, and a score above 100 such as 150 is returned as it is.
\<close>

theorem confidence_never_negative:
  "((f, desc, s) \<in> set (search_screenshots client query d top_k) \<longrightarrow> 0 \<le> s)
   \<and> search_screenshots (\<lambda>prompt. Some ''a.png: -5'') query [(''a.png'', desc0)] 5
       = [(''a.png'', desc0, 5)]
   \<and> search_screenshots (\<lambda>prompt. Some ''a.png: 150'') query [(''a.png'', desc0)] 5
       = [(''a.png'', desc0, 150)]"
proof -
  have "0 \<le> s" if "(f, desc, s) \<in> set (search_screenshots client query d top_k)"
  proof -
    from that obtain reply where "(f, desc, s) \<in> set (surviving d reply)"
      using search_screenshots_member by blast
    then obtain l where "line_triple d l = Some (f, desc, s)"
      using surviving_member by blast
    then have "py_int (filter isdigit (score_part l)) = Inr s"
      using line_triple_Some by blast
    then show ?thesis by (rule py_int_nonneg)
  qed
  moreover have "surviving [(''a.png'', desc0)] ''a.png: -5'' = [(''a.png'', desc0, 5)]"
    by (simp add: surviving_def strip_def isspace_def newline_def line_triple_def
        score_part_def after_colon_def filename_of_def name_part_def strip_ordinal_def
        isdigit_def isdecimal_def py_int_def digit_value_def)
  moreover have "surviving [(''a.png'', desc0)] ''a.png: 150'' = [(''a.png'', desc0, 150)]"
    by (simp add: surviving_def strip_def isspace_def newline_def line_triple_def
        score_part_def after_colon_def filename_of_def name_part_def strip_ordinal_def
        isdigit_def isdecimal_def py_int_def digit_value_def)
  ultimately show ?thesis
    by (simp add: search_screenshots_eq slice_upto_def)
qed

theorem confidence_never_negative_witness:
  "(''a.png'', ''x'', 5) \<in> set (search_screenshots (\<lambda>prompt. Some ''a.png: -5'') ''login''
                                   [(''a.png'', ''x'')] 5)
   \<and> (0::int) \<le> 5"
proof -
  have h: "(''a.png'', ''x'', 5) \<in> set (search_screenshots (\<lambda>prompt. Some ''a.png: -5'') ''login''
                                   [(''a.png'', ''x'')] 5)"
    by code_simp
  show ?thesis
    using h confidence_never_negative
      [where f = "''a.png''" and desc = "''x''" and s = 5 and d = "[(''a.png'', ''x'')]"
         and client = "\<lambda>prompt. Some ''a.png: -5''" and query = "''login''" and top_k = 5]
    by blast
qed

text \<open>
  Claim C10. \<open>search_screenshots\<close> does not remove duplicates: a reply with two well-formed
  lines that name the same key of the store gives that identifier twice, once per line.
\<close>

theorem no_deduplication_of_identifiers:
  "search_screenshots (\<lambda>prompt. Some (''1. a.png: 90'' @ [newline] @ ''2. a.png: 80''))
     ''login'' [(''a.png'', ''A login form'')] 5
   = [(''a.png'', ''A login form'', 90), (''a.png'', ''A login form'', 80)]"
  by code_simp

subsection \<open>The parts of a line\<close>


















subsection \<open>The result of the parser in the words of the specification\<close>







subsection \<open>The store and the indexing loop\<close>

lemma get_image_description_world:
  "snd (get_image_description e p w) = w\<lparr>vision_calls := vision_calls w @ [p]\<rparr>"
  by (simp add: get_image_description_def split: option.splits)

lemma store_inv_update:
  "store_inv d \<Longrightarrow> v \<noteq> [] \<Longrightarrow> store_inv (AList.update k v d)"
  by (induction d) (auto simp: store_inv_def)

lemma map_of_update_other:
  "\<not> py_in k d \<Longrightarrow> py_in x d \<Longrightarrow> map_of (AList.update k v d) x = map_of d x"
  by (auto simp: py_in_def update_conv')

lemma py_in_update: "py_in x d \<Longrightarrow> py_in x (AList.update k v d)"
  by (simp add: py_in_def update_conv')

lemma index_loop_files:
  "index_loop e image_files (d, n, w) = (d', n', w') \<Longrightarrow> files w' = files w"
proof (induction image_files arbitrary: d n w)
  case Nil
  then show ?case by simp
next
  case (Cons f image_files)
  show ?case
  proof (cases "py_in f d")
    case True
    then show ?thesis using Cons by simp
  next
    case False
    obtain desc w1 where g: "get_image_description e f w = (desc, w1)"
      by (cases "get_image_description e f w")
    then have w1: "files w1 = files w"
      using get_image_description_world [of e f w] by simp
    show ?thesis
    proof (cases "desc = []")
      case True
      then have "index_loop e image_files (d, n, w1) = (d', n', w')"
        using Cons.prems False g by simp
      then show ?thesis using Cons.IH w1 by metis
    next
      case nonempty: False
      then have "index_loop e image_files (AList.update f desc d, n + 1, w1) = (d', n', w')"
        using Cons.prems False g by simp
      then show ?thesis using Cons.IH w1 by metis
    qed
  qed
qed

lemma index_loop_calls:
  "index_loop e image_files (d, n, w) = (d', n', w') \<Longrightarrow>
     \<exists>cs. vision_calls w' = vision_calls w @ cs
          \<and> (\<forall>f \<in> set cs. f \<in> set image_files \<and> \<not> py_in f d)"
proof (induction image_files arbitrary: d n w)
  case Nil
  then show ?case by simp
next
  case (Cons f image_files)
  show ?case
  proof (cases "py_in f d")
    case True
    then have "index_loop e image_files (d, n, w) = (d', n', w')"
      using Cons.prems by simp
    from Cons.IH [OF this] show ?thesis by auto
  next
    case False
    obtain desc w1 where g: "get_image_description e f w = (desc, w1)"
      by (cases "get_image_description e f w")
    then have w1: "vision_calls w1 = vision_calls w @ [f]"
      using get_image_description_world [of e f w] by simp
    show ?thesis
    proof (cases "desc = []")
      case True
      then have "index_loop e image_files (d, n, w1) = (d', n', w')"
        using Cons.prems False g by simp
      from Cons.IH [OF this] obtain cs where
        "vision_calls w' = vision_calls w1 @ cs"
        "\<forall>x \<in> set cs. x \<in> set image_files \<and> \<not> py_in x d"
        by blast
      then have "vision_calls w' = vision_calls w @ (f # cs)
          \<and> (\<forall>x \<in> set (f # cs). x \<in> set (f # image_files) \<and> \<not> py_in x d)"
        using w1 False by auto
      then show ?thesis by blast
    next
      case nonempty: False
      then have "index_loop e image_files (AList.update f desc d, n + 1, w1) = (d', n', w')"
        using Cons.prems False g by simp
      from Cons.IH [OF this] obtain cs where
        "vision_calls w' = vision_calls w1 @ cs"
        "\<forall>x \<in> set cs. x \<in> set image_files \<and> \<not> py_in x (AList.update f desc d)"
        by blast
      then have "vision_calls w' = vision_calls w @ (f # cs)
          \<and> (\<forall>x \<in> set (f # cs). x \<in> set (f # image_files) \<and> \<not> py_in x d)"
        using w1 False py_in_update by auto
      then show ?thesis by blast
    qed
  qed
qed

lemma index_loop_keeps:
  "index_loop e image_files (d, n, w) = (d', n', w') \<Longrightarrow> py_in k d \<Longrightarrow>
     map_of d' k = map_of d k"
proof (induction image_files arbitrary: d n w)
  case Nil
  then show ?case by simp
next
  case (Cons f image_files)
  show ?case
  proof (cases "py_in f d")
    case True
    then have "index_loop e image_files (d, n, w) = (d', n', w')"
      using Cons.prems by simp
    from Cons.IH [OF this Cons.prems(2)] show ?thesis .
  next
    case False
    obtain desc w1 where g: "get_image_description e f w = (desc, w1)"
      by (cases "get_image_description e f w")
    show ?thesis
    proof (cases "desc = []")
      case True
      then have "index_loop e image_files (d, n, w1) = (d', n', w')"
        using Cons.prems False g by simp
      from Cons.IH [OF this Cons.prems(2)] show ?thesis .
    next
      case nonempty: False
      then have "index_loop e image_files (AList.update f desc d, n + 1, w1) = (d', n', w')"
        using Cons.prems False g by simp
      from Cons.IH [OF this py_in_update [OF Cons.prems(2)]]
      have "map_of d' k = map_of (AList.update f desc d) k" .
      then show ?thesis
        using map_of_update_other [OF False Cons.prems(2)] by simp
    qed
  qed
qed

lemma index_loop_inv:
  "index_loop e image_files (d, n, w) = (d', n', w') \<Longrightarrow> store_inv d \<Longrightarrow> store_inv d'"
proof (induction image_files arbitrary: d n w)
  case Nil
  then show ?case by simp
next
  case (Cons f image_files)
  show ?case
  proof (cases "py_in f d")
    case True
    then have "index_loop e image_files (d, n, w) = (d', n', w')"
      using Cons.prems by simp
    from Cons.IH [OF this Cons.prems(2)] show ?thesis .
  next
    case False
    obtain desc w1 where g: "get_image_description e f w = (desc, w1)"
      by (cases "get_image_description e f w")
    show ?thesis
    proof (cases "desc = []")
      case True
      then have "index_loop e image_files (d, n, w1) = (d', n', w')"
        using Cons.prems False g by simp
      from Cons.IH [OF this Cons.prems(2)] show ?thesis .
    next
      case nonempty: False
      then have "index_loop e image_files (AList.update f desc d, n + 1, w1) = (d', n', w')"
        using Cons.prems False g by simp
      from Cons.IH [OF this store_inv_update [OF Cons.prems(2) nonempty]] show ?thesis .
    qed
  qed
qed

lemma index_loop_all_present:
  "\<forall>f \<in> set image_files. py_in f d \<Longrightarrow> index_loop e image_files (d, n, w) = (d, n, w)"
  by (induction image_files) auto

lemma index_screenshots_cases:
  obtains (unchanged) "index_screenshots e folder out w = w"
  | (saved) d' n' w' where
      "index_loop e (find_image_files e folder) (load_descriptions e out w, 0, w) = (d', n', w')"
      "index_screenshots e folder out w = save_descriptions e d' out w'"
proof (cases "folder_exists e folder \<and> find_image_files e folder \<noteq> []")
  case False
  then have "index_screenshots e folder out w = w"
    by (auto simp: index_screenshots_def Let_def)
  then show ?thesis by (rule unchanged)
next
  case True
  obtain d' n' w' where
    l: "index_loop e (find_image_files e folder) (load_descriptions e out w, 0, w) = (d', n', w')"
    by (cases "index_loop e (find_image_files e folder) (load_descriptions e out w, 0, w)")
  then have "index_screenshots e folder out w = save_descriptions e d' out w'"
    using True by (simp add: index_screenshots_def Let_def)
  with l show ?thesis by (rule saved)
qed

lemma new_calls_self: "new_calls w w = []"
  by (simp add: new_calls_def)

lemma new_calls_append: "vision_calls w' = vision_calls w @ cs \<Longrightarrow> new_calls w w' = cs"
  by (simp add: new_calls_def)

lemma save_descriptions_calls:
  "vision_calls (save_descriptions e d out w) = vision_calls w"
  by (simp add: save_descriptions_def)

lemma save_descriptions_files:
  "files (save_descriptions e d out w) = (files w)(out \<mapsto> json_dump e d)"
  by (simp add: save_descriptions_def)

subsection \<open>Decoding what json.dump wrote\<close>

lemma hex_value_hex_digit: "m < 16 \<Longrightarrow> hex_value (hex_digit m) = Some m"
  by (auto simp: hex_value_def hex_digit_def Let_def)

lemma hex4_escape:
  "hex4 CHR ''0'' CHR ''0'' (hex_digit ((of_char c :: nat) div 16)) (hex_digit ((of_char c :: nat) mod 16))
     = Some (of_char c)"
proof -
  have "(of_char c :: nat) < 256" by simp
  then have "(of_char c :: nat) div 16 < 16" by presburger
  then show ?thesis
    by (simp add: hex4_def hex_value_hex_digit) (simp add: hex_value_def)
qed

lemma scan_string_escape:
  "scan_string (json_escape c @ rest) =
     (case scan_string rest of None \<Rightarrow> None | Some (s, r) \<Rightarrow> Some (c # s, r))"
proof -
  consider (q) "c = CHR 0x22" | (b) "c = CHR 0x5C" | (n) "c = CHR 0x0A" | (r) "c = CHR 0x0D"
    | (t) "c = CHR 0x09" | (bs) "c = CHR 0x08" | (f) "c = CHR 0x0C"
    | (plain) "c \<noteq> CHR 0x22" "c \<noteq> CHR 0x5C" "32 \<le> (of_char c :: nat)" "(of_char c :: nat) \<le> 126"
    | (u) "c \<noteq> CHR 0x22" "c \<noteq> CHR 0x5C" "c \<noteq> CHR 0x0A" "c \<noteq> CHR 0x0D" "c \<noteq> CHR 0x09"
          "c \<noteq> CHR 0x08" "c \<noteq> CHR 0x0C" "\<not> (32 \<le> (of_char c :: nat) \<and> (of_char c :: nat) \<le> 126)"
    by blast
  then show ?thesis
  proof cases
    case q
    show ?thesis unfolding q by (simp add: json_escape_def quote_def backslash_def unescape_def)
  next
    case b
    show ?thesis unfolding b by (simp add: json_escape_def quote_def backslash_def unescape_def)
  next
    case n
    show ?thesis unfolding n by (simp add: json_escape_def quote_def backslash_def unescape_def)
  next
    case r
    show ?thesis unfolding r by (simp add: json_escape_def quote_def backslash_def unescape_def)
  next
    case t
    show ?thesis unfolding t by (simp add: json_escape_def quote_def backslash_def unescape_def)
  next
    case bs
    show ?thesis unfolding bs by (simp add: json_escape_def quote_def backslash_def unescape_def)
  next
    case f
    show ?thesis unfolding f by (simp add: json_escape_def quote_def backslash_def unescape_def)
  next
    case plain
    then show ?thesis by (auto simp add: json_escape_def quote_def backslash_def)
  next
    case u
    then show ?thesis
      by (simp add: json_escape_def hex4_escape quote_def backslash_def cong: option.case_cong)
  qed
qed

lemma scan_string_json:
  "scan_string (concat (map json_escape s) @ CHR 0x22 # rest) = Some (s, rest)"
  by (induction s) (simp_all add: scan_string_escape, simp add: quote_def)

lemma parse_pairs_item:
  "parse_pairs (skip_ws (json_item (k, v) @ rest)) =
     (case skip_ws rest of
        [] \<Rightarrow> None
      | c5 # s6 \<Rightarrow>
          if c5 = CHR ''}'' then Some ([(k, v)], s6)
          else if c5 = CHR '','' then
            (case parse_pairs (skip_ws s6) of
               None \<Rightarrow> None
             | Some (ps, r) \<Rightarrow> Some ((k, v) # ps, r))
          else None)"
proof -
  have a: "skip_ws (json_item (k, v) @ rest)
        = CHR 0x22 # concat (map json_escape k) @ CHR 0x22 # CHR '':'' # CHR '' ''
            # CHR 0x22 # concat (map json_escape v) @ CHR 0x22 # rest"
    by (simp add: json_item_def json_string_def skip_ws_def json_ws_def quote_def)
  show ?thesis
    unfolding a
    by (simp add: parse_pairs.simps scan_string_json quote_def skip_ws_def json_ws_def)
qed

lemma skip_ws_newline: "skip_ws (newline # s) = skip_ws s"
  by (simp add: skip_ws_def json_ws_def newline_def)

lemma skip_ws_comma: "skip_ws (CHR '','' # s) = CHR '','' # s"
  by (simp add: skip_ws_def json_ws_def)

lemma skip_ws_brace: "skip_ws (CHR ''}'' # s) = CHR ''}'' # s"
  by (simp add: skip_ws_def json_ws_def)

lemma skip_ws_item: "\<exists>s2. skip_ws (json_item p @ rest) = CHR 0x22 # s2"
  by (cases p) (simp add: json_item_def json_string_def skip_ws_def json_ws_def quote_def)

lemma parse_pairs_join:
  "parse_pairs (skip_ws (join ('','' @ [newline]) (map json_item (p # ps)) @ newline # CHR ''}'' # rest))
     = Some (p # ps, rest)"
proof (induction ps arbitrary: p)
  case Nil
  obtain k v where p: "p = (k, v)" by (cases p)
  show ?case
    unfolding p by (simp add: parse_pairs_item skip_ws_newline skip_ws_brace)
next
  case (Cons q qs)
  obtain k v where p: "p = (k, v)" by (cases p)
  show ?case
    unfolding p using Cons.IH [of q]
    by (simp add: parse_pairs_item skip_ws_newline skip_ws_comma)
qed

lemma dict_of_distinct_aux:
  "distinct (map fst (acc @ ps)) \<Longrightarrow> foldl (\<lambda>d (k, v). AList.update k v d) acc ps = acc @ ps"
proof (induction ps arbitrary: acc)
  case Nil
  show ?case by simp
next
  case (Cons p ps)
  obtain k v where p: "p = (k, v)" by (cases p)
  have "k \<notin> fst ` set acc" using Cons.prems p by auto
  then have "AList.update k v acc = acc @ [(k, v)]"
    by (induction acc) auto
  then show ?case
    using Cons.IH [of "acc @ [(k, v)]"] Cons.prems p by simp
qed

lemma dict_of_distinct: "distinct (map fst d) \<Longrightarrow> dict_of d = d"
  using dict_of_distinct_aux [of "[]" d] by (simp add: dict_of_def)

lemma json_roundtrip: "distinct (map fst d) \<Longrightarrow> json_loads (json_dumps d) = Some d"
proof (cases d)
  case Nil
  then show ?thesis by (simp add: json_loads_def json_dumps_def skip_ws_def json_ws_def)
next
  case (Cons p ps)
  assume dist: "distinct (map fst d)"
  define body where "body = join ('','' @ [newline]) (map json_item (p # ps)) @ newline # CHR ''}'' # []"
  have dumps: "json_dumps d = CHR ''{'' # newline # body"
    using Cons by (simp add: json_dumps_def body_def)
  have "\<exists>rest. body = json_item p @ rest"
    unfolding body_def by (cases ps) simp_all
  then obtain s2 where hd: "skip_ws body = CHR 0x22 # s2"
    using skip_ws_item by metis
  have pairs: "parse_pairs (skip_ws body) = Some (d, [])"
    unfolding body_def Cons by (rule parse_pairs_join)
  have open_brace: "skip_ws (CHR ''{'' # s) = CHR ''{'' # s" for s
    by (simp add: skip_ws_def json_ws_def)
  have "json_loads (json_dumps d) = (if skip_ws [] = [] then Some (dict_of d) else None)"
    unfolding dumps json_loads_def
    by (simp add: open_brace skip_ws_newline hd) (simp add: hd [symmetric] pairs)
  then show ?thesis
    using dist by (simp add: dict_of_distinct skip_ws_def)
qed

subsection \<open>The description store\<close>

lemma json_representable:
  "distinct (map fst m) \<Longrightarrow> json_dump e = json_dumps \<Longrightarrow> json_load e = json_loads \<Longrightarrow>
     representable e m"
  by (simp add: representable_def json_roundtrip)

text \<open>
  Claim C5. For every mapping that is representable in the persisted format and every
  path, \<open>save_descriptions\<close> followed by \<open>load_descriptions\<close> gives the mapping back,
  whatever the state held at the path before: the document at the path is replaced by the
  document of the mapping. With the \<open>json\<close> module as modelled above, every dictionary of
  strings is representable.
\<close>

theorem save_then_load_round_trip:
  "(representable e m \<longrightarrow> load_descriptions e p (save_descriptions e m p w) = m)
   \<and> files (save_descriptions e m p w) p = Some (json_dump e m)
   \<and> (distinct (map fst m) \<and> json_dump e = json_dumps \<and> json_load e = json_loads \<longrightarrow>
        representable e m)"
  using json_representable
  by (auto simp: representable_def load_descriptions_def save_descriptions_def)

theorem save_then_load_round_trip_witness:
  "representable example_env [(''a.png'', ''A login form''), (''b.png'', ''Sunset'')]
   \<and> distinct (map fst [(''a.png'', ''A login form''), (''b.png'', ''Sunset'')])
   \<and> json_dump example_env = json_dumps \<and> json_load example_env = json_loads
   \<and> load_descriptions example_env ''store.json''
        (save_descriptions example_env [(''a.png'', ''A login form''), (''b.png'', ''Sunset'')]
           ''store.json'' (empty_world\<lparr>files := [''store.json'' \<mapsto> ''{ old''] \<rparr>))
      = [(''a.png'', ''A login form''), (''b.png'', ''Sunset'')]"
proof -
  have h1: "representable example_env [(''a.png'', ''A login form''), (''b.png'', ''Sunset'')]"
    by code_simp
  have h2: "distinct (map fst [(''a.png'', ''A login form''), (''b.png'', ''Sunset'')])"
    by simp
  have h3: "json_dump example_env = json_dumps \<and> json_load example_env = json_loads"
    by (simp add: example_env_def)
  show ?thesis
    using h1 h2 h3 save_then_load_round_trip
      [where e = example_env and m = "[(''a.png'', ''A login form''), (''b.png'', ''Sunset'')]"
         and p = "''store.json''" and w = "empty_world\<lparr>files := [''store.json'' \<mapsto> ''{ old'']\<rparr>"]
    by blast
qed

subsection \<open>Ingestion\<close>

lemma index_screenshots_new_calls:
  "\<forall>f \<in> set (new_calls w (index_screenshots e folder out w)).
      f \<in> set (find_image_files e folder) \<and> \<not> py_in f (load_descriptions e out w)"
proof (cases e folder out w rule: index_screenshots_cases)
  case unchanged
  then show ?thesis by (simp add: new_calls_self)
next
  case (saved d' n' w')
  from index_loop_calls [OF saved(1)] obtain cs where
    cs: "vision_calls w' = vision_calls w @ cs"
    and only: "\<forall>f \<in> set cs. f \<in> set (find_image_files e folder)
                 \<and> \<not> py_in f (load_descriptions e out w)"
    by blast
  have "new_calls w (index_screenshots e folder out w) = cs"
    using saved(2) cs by (simp add: new_calls_def save_descriptions_calls)
  with only show ?thesis by simp
qed

lemma index_screenshots_keeps:
  "\<exists>d'. (\<forall>k. py_in k (load_descriptions e out w) \<longrightarrow>
              map_of d' k = map_of (load_descriptions e out w) k)
        \<and> (index_screenshots e folder out w = w
           \<or> files (index_screenshots e folder out w) = (files w)(out \<mapsto> json_dump e d'))"
proof (cases e folder out w rule: index_screenshots_cases)
  case unchanged
  then show ?thesis by blast
next
  case (saved d' n' w')
  have "files (index_screenshots e folder out w) = (files w)(out \<mapsto> json_dump e d')"
    using saved(2) index_loop_files [OF saved(1)] by (simp add: save_descriptions_files)
  moreover have "\<forall>k. py_in k (load_descriptions e out w) \<longrightarrow>
              map_of d' k = map_of (load_descriptions e out w) k"
    using index_loop_keeps [OF saved(1)] by blast
  ultimately show ?thesis by blast
qed

lemma index_screenshots_all_present:
  assumes "\<forall>f \<in> set (find_image_files e folder). py_in f (load_descriptions e out w)"
  shows "new_calls w (index_screenshots e folder out w) = []
         \<and> (index_screenshots e folder out w = w
            \<or> index_screenshots e folder out w
                = save_descriptions e (load_descriptions e out w) out w)"
proof (cases e folder out w rule: index_screenshots_cases)
  case unchanged
  then show ?thesis by (simp add: new_calls_self)
next
  case (saved d' n' w')
  have "index_loop e (find_image_files e folder) (load_descriptions e out w, 0, w)
          = (load_descriptions e out w, 0, w)"
    using assms by (rule index_loop_all_present)
  with saved(1) have "d' = load_descriptions e out w" "w' = w" by auto
  with saved(2) show ?thesis
    by (simp add: new_calls_def save_descriptions_calls)
qed

lemma process_single_image_present:
  "py_in X (load_descriptions e out w) \<Longrightarrow> process_single_image e X out w = (True, w)"
  by (simp add: process_single_image_def)

subsection \<open>Two runs of ingestion\<close>

lemma dict_of_keys_distinct: "distinct (map fst (dict_of ps))"
proof -
  have "distinct (map fst acc) \<Longrightarrow>
          distinct (map fst (foldl (\<lambda>d (k, v). AList.update k v d) acc ps))" for acc
    by (induction ps arbitrary: acc) (auto simp: distinct_update)
  from this [of "[]"] show ?thesis by (simp add: dict_of_def)
qed

lemma json_loads_distinct: "json_loads s = Some d \<Longrightarrow> distinct (map fst d)"
  using dict_of_keys_distinct
  by (auto simp: json_loads_def split: list.splits if_splits option.splits prod.splits)

lemma load_descriptions_distinct:
  "json_load e = json_loads \<Longrightarrow> distinct (map fst (load_descriptions e out w))"
  using json_loads_distinct by (auto simp: load_descriptions_def split: option.splits)

lemma index_loop_distinct:
  "index_loop e image_files (d, n, w) = (d', n', w') \<Longrightarrow> distinct (map fst d) \<Longrightarrow>
     distinct (map fst d')"
proof (induction image_files arbitrary: d n w)
  case Nil
  then show ?case by simp
next
  case (Cons f image_files)
  show ?case
  proof (cases "py_in f d")
    case True
    then have "index_loop e image_files (d, n, w) = (d', n', w')"
      using Cons.prems by simp
    from Cons.IH [OF this Cons.prems(2)] show ?thesis .
  next
    case False
    obtain desc w1 where g: "get_image_description e f w = (desc, w1)"
      by (cases "get_image_description e f w")
    show ?thesis
    proof (cases "desc = []")
      case True
      then have "index_loop e image_files (d, n, w1) = (d', n', w')"
        using Cons.prems False g by simp
      from Cons.IH [OF this Cons.prems(2)] show ?thesis .
    next
      case nonempty: False
      then have "index_loop e image_files (AList.update f desc d, n + 1, w1) = (d', n', w')"
        using Cons.prems False g by simp
      from Cons.IH [OF this distinct_update [OF Cons.prems(2)]] show ?thesis .
    qed
  qed
qed

lemma index_loop_py_in:
  "index_loop e image_files (d, n, w) = (d', n', w') \<Longrightarrow> py_in k d \<Longrightarrow> py_in k d'"
  using index_loop_keeps [of e image_files d n w d' n' w' k] by (simp add: py_in_def)

lemma get_image_description_value:
  "fst (get_image_description e p w)
     = (case vision e (length (vision_calls w)) p of None \<Rightarrow> [] | Some s \<Rightarrow> s)"
  by (simp add: get_image_description_def split: option.splits)

lemma index_loop_succeeded:
  "index_loop e image_files (d, n, w) = (d', n', w') \<Longrightarrow> describes_succeeded e w w' \<Longrightarrow>
     list_all (\<lambda>f. py_in f d') image_files"
proof (induction image_files arbitrary: d n w)
  case Nil
  then show ?case by simp
next
  case (Cons f image_files)
  show ?case
  proof (cases "py_in f d")
    case True
    then have l: "index_loop e image_files (d, n, w) = (d', n', w')"
      using Cons.prems by simp
    have "py_in f d'"
      using index_loop_py_in [OF l True] .
    then show ?thesis
      using Cons.IH [OF l Cons.prems(2)] by simp
  next
    case False
    obtain desc w1 where g: "get_image_description e f w = (desc, w1)"
      by (cases "get_image_description e f w")
    then have w1: "vision_calls w1 = vision_calls w @ [f]"
      using get_image_description_world [of e f w] by simp
    have desc: "desc = (case vision e (length (vision_calls w)) f of None \<Rightarrow> [] | Some s \<Rightarrow> s)"
      using g get_image_description_value [of e f w] by simp
    have rest: "\<exists>d1 n1. index_loop e image_files (d1, n1, w1) = (d', n', w')
                  \<and> (desc \<noteq> [] \<longrightarrow> d1 = AList.update f desc d)"
      using Cons.prems(1) False g by (cases "desc = []") auto
    then obtain d1 n1 where l: "index_loop e image_files (d1, n1, w1) = (d', n', w')"
      and d1: "desc \<noteq> [] \<longrightarrow> d1 = AList.update f desc d"
      by blast
    from index_loop_calls [OF l] obtain cs where cs: "vision_calls w' = vision_calls w1 @ cs"
      by blast
    then have nc: "new_calls w w' = f # cs" "new_calls w1 w' = cs"
      using w1 by (simp_all add: new_calls_def)
    have first: "(case vision e (length (vision_calls w)) f of None \<Rightarrow> False | Some s \<Rightarrow> s \<noteq> [])"
      and later: "describes_succeeded e w1 w'"
      using Cons.prems(2) nc w1 by (simp_all add: describes_succeeded_def)
    from first desc have "desc \<noteq> []"
      by (auto split: option.splits)
    with d1 have "py_in f d1"
      by (simp add: py_in_def update_conv')
    then have "py_in f d'"
      using index_loop_py_in [OF l] by blast
    then show ?thesis
      using Cons.IH [OF l later] by simp
  qed
qed

lemma index_loop_retry:
  "index_loop e image_files (d, n, w) = (d', n', w') \<Longrightarrow> f \<in> set image_files \<Longrightarrow>
     \<not> py_in f d \<Longrightarrow> f \<in> set (new_calls w w')"
proof (induction image_files arbitrary: d n w)
  case Nil
  then show ?case by simp
next
  case (Cons g image_files)
  show ?case
  proof (cases "py_in g d")
    case True
    then have l: "index_loop e image_files (d, n, w) = (d', n', w')"
      using Cons.prems by simp
    have "f \<noteq> g" using True Cons.prems(3) by auto
    then have "f \<in> set image_files" using Cons.prems(2) by simp
    from Cons.IH [OF l this Cons.prems(3)] show ?thesis .
  next
    case False
    obtain desc w1 where gd: "get_image_description e g w = (desc, w1)"
      by (cases "get_image_description e g w")
    then have w1: "vision_calls w1 = vision_calls w @ [g]"
      using get_image_description_world [of e g w] by simp
    have rest: "\<exists>d1 n1. index_loop e image_files (d1, n1, w1) = (d', n', w')
                  \<and> (d1 = d \<or> d1 = AList.update g desc d)"
      using Cons.prems(1) False gd by (cases "desc = []") auto
    then obtain d1 n1 where l: "index_loop e image_files (d1, n1, w1) = (d', n', w')"
      and d1: "d1 = d \<or> d1 = AList.update g desc d"
      by blast
    from index_loop_calls [OF l] obtain cs where cs: "vision_calls w' = vision_calls w1 @ cs"
      by blast
    then have nc: "new_calls w w' = g # cs" "new_calls w1 w' = cs"
      using w1 by (simp_all add: new_calls_def)
    show ?thesis
    proof (cases "f = g")
      case True
      then show ?thesis using nc by simp
    next
      case neq: False
      then have mem: "f \<in> set image_files" using Cons.prems(2) by simp
      have "\<not> py_in f d1"
        using d1 Cons.prems(3) neq by (auto simp: py_in_def update_conv')
      from Cons.IH [OF l mem this] show ?thesis
        using nc by simp
    qed
  qed
qed

lemma index_screenshots_retry:
  assumes "folder_exists e folder" "f \<in> set (find_image_files e folder)"
    "\<not> py_in f (load_descriptions e out w)"
  shows "f \<in> set (new_calls w (index_screenshots e folder out w))"
proof -
  obtain d' n' w' where
    l: "index_loop e (find_image_files e folder) (load_descriptions e out w, 0, w) = (d', n', w')"
    by (cases "index_loop e (find_image_files e folder) (load_descriptions e out w, 0, w)")
  have ne: "find_image_files e folder \<noteq> []"
    using assms(2) by auto
  have "index_screenshots e folder out w = save_descriptions e d' out w'"
    using assms(1) ne l by (simp add: index_screenshots_def Let_def)
  then have "new_calls w (index_screenshots e folder out w) = new_calls w w'"
    by (simp add: new_calls_def save_descriptions_calls)
  then show ?thesis
    using index_loop_retry [OF l assms(2,3)] by simp
qed

lemma save_descriptions_again:
  "files w out = Some (json_dump e d) \<Longrightarrow> save_descriptions e d out w = w"
  by (simp add: save_descriptions_def map_upd_triv)

lemma index_screenshots_twice:
  assumes dump: "json_dump e = json_dumps" and load: "json_load e = json_loads"
    and succ: "describes_succeeded e w (index_screenshots e folder out w)"
  shows "new_calls (index_screenshots e folder out w)
           (index_screenshots e folder out (index_screenshots e folder out w)) = []
         \<and> index_screenshots e folder out (index_screenshots e folder out w)
             = index_screenshots e folder out w"
proof (cases e folder out w rule: index_screenshots_cases)
  case unchanged
  then show ?thesis by (simp add: new_calls_self)
next
  case (saved d' n' w')
  let ?w1 = "index_screenshots e folder out w"
  have calls: "vision_calls ?w1 = vision_calls w'"
    using saved(2) by (simp add: save_descriptions_calls)
  then have "describes_succeeded e w w'"
    using succ by (simp add: describes_succeeded_def new_calls_def)
  from index_loop_succeeded [OF saved(1) this]
  have all: "list_all (\<lambda>f. py_in f d') (find_image_files e folder)" .
  have "distinct (map fst d')"
    using index_loop_distinct [OF saved(1) load_descriptions_distinct [OF load]] .
  then have "json_load e (json_dump e d') = Some d'"
    using dump load by (simp add: json_roundtrip)
  moreover have written: "files ?w1 out = Some (json_dump e d')"
    using saved(2) by (simp add: save_descriptions_files)
  ultimately have ld: "load_descriptions e out ?w1 = d'"
    by (simp add: load_descriptions_def)
  have "\<forall>f \<in> set (find_image_files e folder). py_in f (load_descriptions e out ?w1)"
    using all ld by (simp add: list_all_iff)
  from index_screenshots_all_present [OF this]
  have nc: "new_calls ?w1 (index_screenshots e folder out ?w1) = []"
    and w2: "index_screenshots e folder out ?w1 = ?w1
             \<or> index_screenshots e folder out ?w1
                 = save_descriptions e (load_descriptions e out ?w1) out ?w1"
    by blast+
  have "save_descriptions e (load_descriptions e out ?w1) out ?w1 = ?w1"
    using written ld by (simp add: save_descriptions_again)
  with w2 have "index_screenshots e folder out ?w1 = ?w1" by auto
  with nc show ?thesis by simp
qed

lemma process_single_image_twice:
  assumes dump: "json_dump e = json_dumps" and load: "json_load e = json_loads"
    and ok: "fst (process_single_image e X out w)"
  shows "process_single_image e X out (snd (process_single_image e X out w))
           = (True, snd (process_single_image e X out w))"
proof (cases "py_in X (load_descriptions e out w)")
  case True
  then show ?thesis by (simp add: process_single_image_def)
next
  case False
  obtain desc w1 where g: "get_image_description e X w = (desc, w1)"
    by (cases "get_image_description e X w")
  have nonempty: "desc \<noteq> []"
    using ok False g by (auto simp: process_single_image_def split: if_splits)
  let ?d1 = "AList.update X desc (load_descriptions e out w)"
  let ?w2 = "save_descriptions e ?d1 out w1"
  have res: "snd (process_single_image e X out w) = ?w2"
    using False g nonempty by (simp add: process_single_image_def)
  have "distinct (map fst ?d1)"
    using load_descriptions_distinct [OF load] by (rule distinct_update)
  then have "json_load e (json_dump e ?d1) = Some ?d1"
    using dump load by (simp add: json_roundtrip)
  then have "load_descriptions e out ?w2 = ?d1"
    by (simp add: load_descriptions_def save_descriptions_files)
  then have "py_in X (load_descriptions e out ?w2)"
    by (simp add: py_in_def update_conv')
  then have "process_single_image e X out ?w2 = (True, ?w2)"
    by (rule process_single_image_present)
  then show ?thesis using res by simp
qed

text \<open>
  Claim C6, as amended. An image whose identifier is already a key of the store is skipped
  by both ways of ingestion: \<open>process_single_image\<close> returns at once and changes nothing,
  and \<open>index_screenshots\<close> calls the describer only on candidates that are not keys of the
  store it loaded and writes back a mapping that keeps the description of every such key.
  So, when every describe attempt of a first run succeeds, a second run over the same
  folder calls the describer on nothing and changes nothing, and the same holds for a
  second single-item ingestion after a successful one. A candidate that is not in the
  store, as one whose description failed, is described again by the next run.
\<close>

theorem ingestion_skips_indexed_images:
  "(py_in X (load_descriptions e out w) \<longrightarrow>
      process_single_image e X out w = (True, w)
      \<and> X \<notin> set (new_calls w (index_screenshots e folder out w)))
   \<and> (\<forall>f \<in> set (new_calls w (index_screenshots e folder out w)).
         f \<in> set (find_image_files e folder) \<and> \<not> py_in f (load_descriptions e out w))
   \<and> (\<exists>d'. (\<forall>k. py_in k (load_descriptions e out w) \<longrightarrow>
                 map_of d' k = map_of (load_descriptions e out w) k)
           \<and> (index_screenshots e folder out w = w
              \<or> files (index_screenshots e folder out w) = (files w)(out \<mapsto> json_dump e d')))
   \<and> ((\<forall>f \<in> set (find_image_files e folder). py_in f (load_descriptions e out w)) \<longrightarrow>
        new_calls w (index_screenshots e folder out w) = []
        \<and> (index_screenshots e folder out w = w
           \<or> index_screenshots e folder out w
               = save_descriptions e (load_descriptions e out w) out w))
   \<and> (json_dump e = json_dumps \<and> json_load e = json_loads
       \<and> describes_succeeded e w (index_screenshots e folder out w) \<longrightarrow>
        new_calls (index_screenshots e folder out w)
          (index_screenshots e folder out (index_screenshots e folder out w)) = []
        \<and> index_screenshots e folder out (index_screenshots e folder out w)
            = index_screenshots e folder out w)
   \<and> (json_dump e = json_dumps \<and> json_load e = json_loads
       \<and> fst (process_single_image e X out w) \<longrightarrow>
        process_single_image e X out (snd (process_single_image e X out w))
          = (True, snd (process_single_image e X out w)))
   \<and> (folder_exists e folder \<and> Y \<in> set (find_image_files e folder)
       \<and> \<not> py_in Y (load_descriptions e out w) \<longrightarrow>
        Y \<in> set (new_calls w (index_screenshots e folder out w)))"
proof -
  have skip: "process_single_image e X out w = (True, w)
      \<and> X \<notin> set (new_calls w (index_screenshots e folder out w))"
    if "py_in X (load_descriptions e out w)"
    using that process_single_image_present index_screenshots_new_calls by blast
  have twice: "new_calls (index_screenshots e folder out w)
          (index_screenshots e folder out (index_screenshots e folder out w)) = []
        \<and> index_screenshots e folder out (index_screenshots e folder out w)
            = index_screenshots e folder out w"
    if "json_dump e = json_dumps \<and> json_load e = json_loads
       \<and> describes_succeeded e w (index_screenshots e folder out w)"
    using that index_screenshots_twice [of e w folder out] by blast
  have single: "process_single_image e X out (snd (process_single_image e X out w))
          = (True, snd (process_single_image e X out w))"
    if "json_dump e = json_dumps \<and> json_load e = json_loads
       \<and> fst (process_single_image e X out w)"
    using that process_single_image_twice [of e X out w] by blast
  have retry: "Y \<in> set (new_calls w (index_screenshots e folder out w))"
    if "folder_exists e folder \<and> Y \<in> set (find_image_files e folder)
       \<and> \<not> py_in Y (load_descriptions e out w)"
    using that index_screenshots_retry [of e folder Y out w] by blast
  show ?thesis
    using skip twice single retry
      index_screenshots_new_calls [of w e folder out]
      index_screenshots_keeps [of e out w folder]
      index_screenshots_all_present [of e folder out w]
    by (intro conjI impI) blast+
qed

theorem ingestion_skips_indexed_images_witness:
  "py_in ''screenshots/a.png''
     (load_descriptions example_env ''store.json'' (after_first_run example_env))
   \<and> process_single_image example_env ''screenshots/a.png'' ''store.json''
        (after_first_run example_env) = (True, after_first_run example_env)
   \<and> ''screenshots/a.png''
        \<notin> set (new_calls (after_first_run example_env)
                  (index_screenshots example_env ''screenshots'' ''store.json''
                     (after_first_run example_env)))
   \<and> ''screenshots/b.png''
        \<in> set (new_calls (after_first_run example_env)
                  (index_screenshots example_env ''screenshots'' ''store.json''
                     (after_first_run example_env)))
   \<and> \<not> py_in ''screenshots/b.png''
          (load_descriptions example_env ''store.json'' (after_first_run example_env))
   \<and> list_all
        (\<lambda>f. py_in f (load_descriptions reliable_env ''store.json'' (after_first_run reliable_env)))
        (find_image_files reliable_env ''screenshots'')
   \<and> new_calls (after_first_run reliable_env)
        (index_screenshots reliable_env ''screenshots'' ''store.json''
           (after_first_run reliable_env)) = []
   \<and> (json_dump reliable_env = json_dumps \<and> json_load reliable_env = json_loads
       \<and> describes_succeeded reliable_env empty_world
            (index_screenshots reliable_env ''screenshots'' ''store.json'' empty_world))
   \<and> (new_calls (index_screenshots reliable_env ''screenshots'' ''store.json'' empty_world)
          (index_screenshots reliable_env ''screenshots'' ''store.json''
             (index_screenshots reliable_env ''screenshots'' ''store.json'' empty_world)) = []
        \<and> index_screenshots reliable_env ''screenshots'' ''store.json''
             (index_screenshots reliable_env ''screenshots'' ''store.json'' empty_world)
            = index_screenshots reliable_env ''screenshots'' ''store.json'' empty_world)
   \<and> fst (process_single_image reliable_env ''screenshots/c.png'' ''store.json'' empty_world)
   \<and> process_single_image reliable_env ''screenshots/c.png'' ''store.json''
        (snd (process_single_image reliable_env ''screenshots/c.png'' ''store.json'' empty_world))
      = (True, snd (process_single_image reliable_env ''screenshots/c.png'' ''store.json''
                      empty_world))
   \<and> (folder_exists example_env ''screenshots''
       \<and> ''screenshots/b.png'' \<in> set (find_image_files example_env ''screenshots''))"
proof -
  have h1: "py_in ''screenshots/a.png''
     (load_descriptions example_env ''store.json'' (after_first_run example_env))"
    by code_simp
  have h2: "''screenshots/b.png''
        \<in> set (new_calls (after_first_run example_env)
                  (index_screenshots example_env ''screenshots'' ''store.json''
                     (after_first_run example_env)))"
    by code_simp
  have l3: "list_all
        (\<lambda>f. py_in f (load_descriptions reliable_env ''store.json'' (after_first_run reliable_env)))
        (find_image_files reliable_env ''screenshots'')"
    by code_simp
  then have h3: "\<forall>f \<in> set (find_image_files reliable_env ''screenshots'').
         py_in f (load_descriptions reliable_env ''store.json'' (after_first_run reliable_env))"
    by (simp add: list_all_iff)
  have j: "json_dump reliable_env = json_dumps \<and> json_load reliable_env = json_loads"
    by (simp add: reliable_env_def example_env_def)
  have s: "describes_succeeded reliable_env empty_world
            (index_screenshots reliable_env ''screenshots'' ''store.json'' empty_world)"
    by code_simp
  have h4: "json_dump reliable_env = json_dumps \<and> json_load reliable_env = json_loads
       \<and> describes_succeeded reliable_env empty_world
            (index_screenshots reliable_env ''screenshots'' ''store.json'' empty_world)"
    using j s by blast
  have p: "fst (process_single_image reliable_env ''screenshots/c.png'' ''store.json'' empty_world)"
    by code_simp
  have h5: "json_dump reliable_env = json_dumps \<and> json_load reliable_env = json_loads
       \<and> fst (process_single_image reliable_env ''screenshots/c.png'' ''store.json'' empty_world)"
    using j p by blast
  have h6: "folder_exists example_env ''screenshots''
       \<and> ''screenshots/b.png'' \<in> set (find_image_files example_env ''screenshots'')"
    by code_simp
  note t1 = ingestion_skips_indexed_images
    [where e = example_env and X = "''screenshots/a.png''" and out = "''store.json''"
       and folder = "''screenshots''" and w = "after_first_run example_env"
       and Y = "''screenshots/b.png''"]
  note t2 = ingestion_skips_indexed_images
    [where e = reliable_env and out = "''store.json''"
       and folder = "''screenshots''" and w = "after_first_run reliable_env"]
  note t3 = ingestion_skips_indexed_images
    [where e = reliable_env and out = "''store.json''" and X = "''screenshots/c.png''"
       and folder = "''screenshots''" and w = empty_world]
  have c1: "process_single_image example_env ''screenshots/a.png'' ''store.json''
        (after_first_run example_env) = (True, after_first_run example_env)
     \<and> ''screenshots/a.png''
        \<notin> set (new_calls (after_first_run example_env)
                  (index_screenshots example_env ''screenshots'' ''store.json''
                     (after_first_run example_env)))"
    using t1 [THEN conjunct1] h1 by (rule mp)
  from h2 t1 [THEN conjunct2, THEN conjunct1] have c2: "\<not> py_in ''screenshots/b.png''
          (load_descriptions example_env ''store.json'' (after_first_run example_env))"
    by blast
  have c3: "new_calls (after_first_run reliable_env)
        (index_screenshots reliable_env ''screenshots'' ''store.json''
           (after_first_run reliable_env)) = []"
    using t2 [THEN conjunct2, THEN conjunct2, THEN conjunct2, THEN conjunct1] h3 by blast
  have c4: "new_calls (index_screenshots reliable_env ''screenshots'' ''store.json'' empty_world)
          (index_screenshots reliable_env ''screenshots'' ''store.json''
             (index_screenshots reliable_env ''screenshots'' ''store.json'' empty_world)) = []
        \<and> index_screenshots reliable_env ''screenshots'' ''store.json''
             (index_screenshots reliable_env ''screenshots'' ''store.json'' empty_world)
            = index_screenshots reliable_env ''screenshots'' ''store.json'' empty_world"
    using t3 [THEN conjunct2, THEN conjunct2, THEN conjunct2, THEN conjunct2, THEN conjunct1] h4
    by (rule mp)
  have c5: "process_single_image reliable_env ''screenshots/c.png'' ''store.json''
        (snd (process_single_image reliable_env ''screenshots/c.png'' ''store.json'' empty_world))
      = (True, snd (process_single_image reliable_env ''screenshots/c.png'' ''store.json''
                      empty_world))"
    using t3 [THEN conjunct2, THEN conjunct2, THEN conjunct2, THEN conjunct2, THEN conjunct2,
              THEN conjunct1] h5
    by (rule mp)
  have h7: "folder_exists example_env ''screenshots''
       \<and> ''screenshots/b.png'' \<in> set (find_image_files example_env ''screenshots'')
       \<and> \<not> py_in ''screenshots/b.png''
          (load_descriptions example_env ''store.json'' (after_first_run example_env))"
    using h6 c2 by blast
  have c6: "''screenshots/b.png''
        \<in> set (new_calls (after_first_run example_env)
                  (index_screenshots example_env ''screenshots'' ''store.json''
                     (after_first_run example_env)))"
    using t1 [THEN conjunct2, THEN conjunct2, THEN conjunct2, THEN conjunct2, THEN conjunct2,
              THEN conjunct2] h7
    by (rule mp)
  from h1 c1 c6 c2 l3 c3 h4 c4 p c5 h6 show ?thesis by blast
qed

text \<open>
  The claim as it was written fails when a description fails: in the example the vision
  model fails on the second image, the first run leaves it out of the store, and the
  second run over the same folder calls the describer on it again.
\<close>

theorem second_run_describes_failed_image_counterexample:
  "vision_calls (after_first_run example_env) = [''screenshots/a.png'', ''screenshots/b.png'']
   \<and> load_descriptions example_env ''store.json'' (after_first_run example_env)
       = [(''screenshots/a.png'', ''A login form'')]
   \<and> new_calls (after_first_run example_env)
        (index_screenshots example_env ''screenshots'' ''store.json''
           (after_first_run example_env)) = [''screenshots/b.png'']"
  by code_simp

lemma index_screenshots_inv:
  assumes "store_inv (load_descriptions e out w)"
  shows "index_screenshots e folder out w = w
         \<or> (\<exists>d'. store_inv d'
                \<and> files (index_screenshots e folder out w) = (files w)(out \<mapsto> json_dump e d'))"
proof (cases e folder out w rule: index_screenshots_cases)
  case unchanged
  then show ?thesis by simp
next
  case (saved d' n' w')
  have "store_inv d'"
    using index_loop_inv [OF saved(1) assms] .
  moreover have "files (index_screenshots e folder out w) = (files w)(out \<mapsto> json_dump e d')"
    using saved(2) index_loop_files [OF saved(1)] by (simp add: save_descriptions_files)
  ultimately show ?thesis by blast
qed

lemma process_single_image_inv:
  assumes "store_inv (load_descriptions e out w)"
  shows "files (snd (process_single_image e X out w)) = files w
         \<or> (\<exists>d'. store_inv d'
                \<and> files (snd (process_single_image e X out w)) = (files w)(out \<mapsto> json_dump e d'))"
proof (cases "py_in X (load_descriptions e out w)")
  case True
  then show ?thesis by (simp add: process_single_image_def)
next
  case False
  obtain desc w1 where g: "get_image_description e X w = (desc, w1)"
    by (cases "get_image_description e X w")
  then have w1: "files w1 = files w"
    using get_image_description_world [of e X w] by simp
  show ?thesis
  proof (cases "desc = []")
    case True
    then show ?thesis
      using False g w1 by (simp add: process_single_image_def)
  next
    case nonempty: False
    have "store_inv (AList.update X desc (load_descriptions e out w))"
      using assms nonempty by (rule store_inv_update)
    moreover have "files (snd (process_single_image e X out w))
        = (files w)(out \<mapsto> json_dump e (AList.update X desc (load_descriptions e out w)))"
      using False g w1 nonempty by (simp add: process_single_image_def save_descriptions_files)
    ultimately show ?thesis by blast
  qed
qed

lemma process_single_image_failed:
  assumes "\<not> py_in X (load_descriptions e out w)" "fst (get_image_description e X w) = []"
  shows "process_single_image e X out w = (False, snd (get_image_description e X w))
         \<and> files (snd (process_single_image e X out w)) = files w"
proof -
  obtain desc w1 where g: "get_image_description e X w = (desc, w1)"
    by (cases "get_image_description e X w")
  then have "files w1 = files w"
    using get_image_description_world [of e X w] by simp
  then show ?thesis
    using assms g by (simp add: process_single_image_def)
qed

lemma index_loop_failed:
  assumes "\<not> py_in X d" "fst (get_image_description e X w) = []"
  shows "index_loop e (X # image_files) (d, n, w)
           = index_loop e image_files (d, n, snd (get_image_description e X w))"
proof -
  obtain desc w1 where g: "get_image_description e X w = (desc, w1)"
    by (cases "get_image_description e X w")
  then show ?thesis
    using assms by simp
qed

text \<open>
  Claim C7. Ingestion preserves the invariant of the store, that every key has a non-empty
  description: from a store with the invariant, the document \<open>index_screenshots\<close> and
  \<open>process_single_image\<close> write is the document of a store with the invariant. A
  description that fails, the empty string, adds and changes no entry: the single-item
  ingestion returns \<open>False\<close> and writes nothing, and the loop of the batch goes on to the
  remaining images with the same store.
\<close>

theorem failed_description_leaves_no_entry:
  assumes "store_inv (load_descriptions e out w)"
  shows "(index_screenshots e folder out w = w
          \<or> (\<exists>d'. store_inv d'
                 \<and> files (index_screenshots e folder out w) = (files w)(out \<mapsto> json_dump e d')))
         \<and> (files (snd (process_single_image e X out w)) = files w
            \<or> (\<exists>d'. store_inv d'
                   \<and> files (snd (process_single_image e X out w))
                       = (files w)(out \<mapsto> json_dump e d')))
         \<and> (\<not> py_in X (load_descriptions e out w) \<and> fst (get_image_description e X w) = [] \<longrightarrow>
              process_single_image e X out w = (False, snd (get_image_description e X w))
              \<and> files (snd (process_single_image e X out w)) = files w)
         \<and> (\<not> py_in X d \<and> fst (get_image_description e X w) = [] \<longrightarrow>
              index_loop e (X # image_files) (d, n, w)
                = index_loop e image_files (d, n, snd (get_image_description e X w)))
         \<and> (store_inv d \<longrightarrow> store_inv (fst (index_loop e image_files (d, n, w))))"
proof -
  have "store_inv (fst (index_loop e image_files (d, n, w)))" if "store_inv d"
  proof -
    obtain d' n' w' where l: "index_loop e image_files (d, n, w) = (d', n', w')"
      by (cases "index_loop e image_files (d, n, w)")
    from index_loop_inv [OF l that] l show ?thesis by simp
  qed
  then show ?thesis
    using index_screenshots_inv [OF assms, of folder] process_single_image_inv [OF assms, of X]
      process_single_image_failed [of X e out w] index_loop_failed [of X d e w image_files n]
    by blast
qed

theorem failed_description_leaves_no_entry_witness:
  "store_inv (load_descriptions example_env ''store.json'' empty_world)
   \<and> \<not> py_in ''screenshots/b.png'' (load_descriptions example_env ''store.json'' empty_world)
   \<and> fst (get_image_description example_env ''screenshots/b.png'' empty_world) = []
   \<and> process_single_image example_env ''screenshots/b.png'' ''store.json'' empty_world
       = (False, snd (get_image_description example_env ''screenshots/b.png'' empty_world))
   \<and> files (snd (process_single_image example_env ''screenshots/b.png'' ''store.json'' empty_world))
       = files empty_world
   \<and> \<not> py_in ''screenshots/b.png'' [(''screenshots/c.png'', ''A sunset'')]
   \<and> store_inv [(''screenshots/c.png'', ''A sunset'')]
   \<and> index_loop example_env [''screenshots/b.png'', ''screenshots/a.png'']
        ([(''screenshots/c.png'', ''A sunset'')], 0, empty_world)
       = index_loop example_env [''screenshots/a.png'']
           ([(''screenshots/c.png'', ''A sunset'')], 0,
            snd (get_image_description example_env ''screenshots/b.png'' empty_world))
   \<and> store_inv (fst (index_loop example_env [''screenshots/a.png'']
                        ([(''screenshots/c.png'', ''A sunset'')], 0, empty_world)))
   \<and> fst (index_loop example_env [''screenshots/b.png'', ''screenshots/a.png'']
            ([(''screenshots/c.png'', ''A sunset'')], 0, empty_world))
       = [(''screenshots/c.png'', ''A sunset''), (''screenshots/a.png'', ''A login form'')]"
proof -
  have h0: "store_inv (load_descriptions example_env ''store.json'' empty_world)"
    by code_simp
  have h1: "\<not> py_in ''screenshots/b.png'' (load_descriptions example_env ''store.json'' empty_world)
     \<and> fst (get_image_description example_env ''screenshots/b.png'' empty_world) = []"
    by code_simp
  have h2: "\<not> py_in ''screenshots/b.png'' [(''screenshots/c.png'', ''A sunset'')]
     \<and> store_inv [(''screenshots/c.png'', ''A sunset'')]"
    by code_simp
  have e: "fst (index_loop example_env [''screenshots/b.png'', ''screenshots/a.png'']
            ([(''screenshots/c.png'', ''A sunset'')], 0, empty_world))
       = [(''screenshots/c.png'', ''A sunset''), (''screenshots/a.png'', ''A login form'')]"
    by code_simp
  note t1 = failed_description_leaves_no_entry
    [OF h0, where X = "''screenshots/b.png''" and d = "[(''screenshots/c.png'', ''A sunset'')]"
       and image_files = "[''screenshots/a.png'']" and n = 0]
  from h1 t1 have c1: "process_single_image example_env ''screenshots/b.png'' ''store.json'' empty_world
       = (False, snd (get_image_description example_env ''screenshots/b.png'' empty_world))
     \<and> files (snd (process_single_image example_env ''screenshots/b.png'' ''store.json'' empty_world))
       = files empty_world"
    by blast
  from h1 h2 t1 have c2: "index_loop example_env [''screenshots/b.png'', ''screenshots/a.png'']
        ([(''screenshots/c.png'', ''A sunset'')], 0, empty_world)
       = index_loop example_env [''screenshots/a.png'']
           ([(''screenshots/c.png'', ''A sunset'')], 0,
            snd (get_image_description example_env ''screenshots/b.png'' empty_world))"
    by blast
  from h2 t1 have c3: "store_inv (fst (index_loop example_env [''screenshots/a.png'']
                        ([(''screenshots/c.png'', ''A sunset'')], 0, empty_world)))"
    by blast
  from h0 h1 h2 e c1 c2 c3 show ?thesis by blast
qed

subsection \<open>The search route\<close>

text \<open>
  Claim C8, as amended. In the search route of the web application a search against an
  empty store fails as a violated precondition of the operation: the route answers with
  the error \<open>No screenshots indexed yet\<close> and status 400, whatever the model would reply,
  which is not the answer of a search that found no match, a result with an empty list.
  Neither caller of the ranker passes it an empty store: every result of the route comes
  from a store that is not empty, and \<open>main\<close> of the command line returns before the
  ranker is called and displays no result. The ranker itself, called on an empty store,
  returns the empty list without a call of the model.
\<close>

theorem empty_store_is_a_precondition_failure:
  "(query \<noteq> [] \<and> load_descriptions e DESCRIPTIONS_FILE w = [] \<longrightarrow>
      search e client query w = ErrorResponse ''No screenshots indexed yet'' 400)
   \<and> (query \<noteq> [] \<and> load_descriptions e DESCRIPTIONS_FILE w \<noteq> []
       \<and> search_screenshots client query (load_descriptions e DESCRIPTIONS_FILE w) 5 = [] \<longrightarrow>
        search e client query w = SearchResults [] query 0)
   \<and> (search e client query w = SearchResults hits q n \<longrightarrow>
        load_descriptions e DESCRIPTIONS_FILE w \<noteq> [])
   \<and> ErrorResponse ''No screenshots indexed yet'' 400 \<noteq> SearchResults [] query 0
   \<and> search_screenshots client query [] top_k = []
   \<and> (load_descriptions e path w = [] \<longrightarrow> search_main e client query path top_k w = None)
   \<and> (search_main e client query path top_k w = Some results \<longrightarrow>
        load_descriptions e path w \<noteq> []
        \<and> results = search_screenshots client query (load_descriptions e path w) top_k)"
  by (auto simp: search_def search_main_def Let_def search_screenshots_def split: if_splits)

theorem empty_store_is_a_precondition_failure_witness:
  "(''login'' \<noteq> [] \<and> load_descriptions example_env DESCRIPTIONS_FILE empty_world = [])
   \<and> search example_env (\<lambda>prompt. Some ''1. screenshots/a.png: 90'') ''login'' empty_world
       = ErrorResponse ''No screenshots indexed yet'' 400
   \<and> load_descriptions example_env DESCRIPTIONS_FILE
        (index_screenshots example_env ''screenshots'' DESCRIPTIONS_FILE empty_world) \<noteq> []
   \<and> search_screenshots (\<lambda>prompt. Some ''Nothing matches.'') ''login''
        (load_descriptions example_env DESCRIPTIONS_FILE
           (index_screenshots example_env ''screenshots'' DESCRIPTIONS_FILE empty_world)) 5 = []
   \<and> search example_env (\<lambda>prompt. Some ''Nothing matches.'') ''login''
        (index_screenshots example_env ''screenshots'' DESCRIPTIONS_FILE empty_world)
       = SearchResults [] ''login'' 0
   \<and> load_descriptions example_env ''store.json''
        (empty_world\<lparr>files := [''store.json'' \<mapsto> ''{}'']\<rparr>) = []
   \<and> search_main example_env (\<lambda>prompt. Some ''1. screenshots/a.png: 90'') ''login''
        ''store.json'' 5 (empty_world\<lparr>files := [''store.json'' \<mapsto> ''{}'']\<rparr>) = None
   \<and> search_main example_env (\<lambda>prompt. Some ''Nothing matches.'') ''login''
        ''store.json'' 5 (after_first_run example_env) = Some []
   \<and> load_descriptions example_env ''store.json'' (after_first_run example_env) \<noteq> []"
proof -
  have h1: "''login'' \<noteq> [] \<and> load_descriptions example_env DESCRIPTIONS_FILE empty_world = []"
    by code_simp
  have h2: "load_descriptions example_env DESCRIPTIONS_FILE
        (index_screenshots example_env ''screenshots'' DESCRIPTIONS_FILE empty_world) \<noteq> []"
    by code_simp
  have h3: "search_screenshots (\<lambda>prompt. Some ''Nothing matches.'') ''login''
        (load_descriptions example_env DESCRIPTIONS_FILE
           (index_screenshots example_env ''screenshots'' DESCRIPTIONS_FILE empty_world)) 5 = []"
    by code_simp
  have h4: "load_descriptions example_env ''store.json''
        (empty_world\<lparr>files := [''store.json'' \<mapsto> ''{}'']\<rparr>) = []"
    by code_simp
  have h5: "search_main example_env (\<lambda>prompt. Some ''Nothing matches.'') ''login''
        ''store.json'' 5 (after_first_run example_env) = Some []"
    by code_simp
  note t1 = empty_store_is_a_precondition_failure
    [where e = example_env and w = empty_world and query = "''login''"
       and client = "\<lambda>prompt. Some ''1. screenshots/a.png: 90''"]
  note t2 = empty_store_is_a_precondition_failure
    [where e = example_env and query = "''login''"
       and w = "index_screenshots example_env ''screenshots'' DESCRIPTIONS_FILE empty_world"
       and client = "\<lambda>prompt. Some ''Nothing matches.''"]
  note t3 = empty_store_is_a_precondition_failure
    [where e = example_env and query = "''login''" and path = "''store.json''" and top_k = 5
       and w = "empty_world\<lparr>files := [''store.json'' \<mapsto> ''{}'']\<rparr>"
       and client = "\<lambda>prompt. Some ''1. screenshots/a.png: 90''"]
  note t4 = empty_store_is_a_precondition_failure
    [where e = example_env and query = "''login''" and path = "''store.json''" and top_k = 5
       and w = "after_first_run example_env" and results = "[]"
       and client = "\<lambda>prompt. Some ''Nothing matches.''"]
  have c1: "search example_env (\<lambda>prompt. Some ''1. screenshots/a.png: 90'') ''login''
        empty_world = ErrorResponse ''No screenshots indexed yet'' 400"
    using t1 [THEN conjunct1] h1 by (rule mp)
  from h1 h2 h3 t2 [THEN conjunct2, THEN conjunct1]
  have c2: "search example_env (\<lambda>prompt. Some ''Nothing matches.'') ''login''
        (index_screenshots example_env ''screenshots'' DESCRIPTIONS_FILE empty_world)
       = SearchResults [] ''login'' 0"
    by blast
  have c3: "search_main example_env (\<lambda>prompt. Some ''1. screenshots/a.png: 90'') ''login''
        ''store.json'' 5 (empty_world\<lparr>files := [''store.json'' \<mapsto> ''{}'']\<rparr>) = None"
    using t3 [THEN conjunct2, THEN conjunct2, THEN conjunct2, THEN conjunct2, THEN conjunct2,
              THEN conjunct1] h4
    by (rule mp)
  from h5 t4 [THEN conjunct2, THEN conjunct2, THEN conjunct2, THEN conjunct2, THEN conjunct2,
              THEN conjunct2]
  have c4: "load_descriptions example_env ''store.json'' (after_first_run example_env) \<noteq> []"
    by blast
  from h1 h2 h3 h4 h5 c1 c2 c3 c4 show ?thesis by blast
qed

text \<open>
  The claim as it was written fails at the ranker: on an empty store \<open>search_screenshots\<close>
  returns the empty list, an empty success, which is the value it returns when the model
  matches nothing in a store that is not empty.
\<close>

theorem ranker_on_empty_store_counterexample:
  "search_screenshots (\<lambda>prompt. Some ''1. a.png: 90'') ''login'' [] 5 = []
   \<and> search_screenshots (\<lambda>prompt. Some ''Nothing matches.'') ''login'' [(''a.png'', ''x'')] 5 = []"
  by code_simp

end
